theory Spec2Isabelle
  imports Main "HOL-Library.Word"
begin

section \<open>contextcond: a condition variable with a cancellable wait\<close>

text \<open>
  The file cond.go holds two listings of the package.  The first (lines 1--138) guards
  \<open>ch\<close> and \<open>waiters\<close> with a channel of capacity one, \<open>mtxCh\<close>, wakes through an
  unbuffered channel and lets Signal lower the waiter count on behalf of a waiter
  (\<open>delegateWaiterLowering\<close>).  The second (lines 139--251) guards them with a
  \<open>sync.Mutex\<close>, \<open>mtx\<close>, and wakes through a channel of capacity one.  Both are embedded
  here; definitions of the first carry the suffix \<open>_mtxCh\<close>, those of the second the
  suffix \<open>_mtx\<close>, after the field that tells the listings apart.

  Goroutines are modelled by interleaving: the program state holds the fields of the
  Cond, the channels made so far, the cancellation state of the contexts and one program
  counter per goroutine.  One event runs one statement of one goroutine; a statement
  that cannot proceed (a lock that is taken, a receive with nothing to receive) is an
  event that is not enabled.  A goroutine that panics stands at \<open>Panicked\<close> and runs no
  further statement of the call.  The panics of the package are raised by \<open>panic(...)\<close>
  and by channel operations, so they are ordinary Go panics: a deferred \<open>recover()\<close> of
  the caller (the event \<open>Recover\<close>) abandons the call and the goroutine goes on in its
  caller.
\<close>

subsection \<open>Channels, contexts, faults\<close>

type_synonym tid = nat
type_synonym chan_ref = nat
type_synonym uintptr = "64 word"

text \<open>The elements are \<open>struct{}\<close>, so a buffer is the number of elements queued.\<close>

record chan =
  cap :: nat
  buf :: nat
  closed :: bool

definition make_chan :: "nat \<Rightarrow> chan" where
  "make_chan n = \<lparr>cap = n, buf = 0, closed = False\<rparr>"

text \<open>\<open>context.Canceled\<close> and \<open>context.DeadlineExceeded\<close>: what \<open>ctx.Err()\<close> returns once
  \<open>ctx.Done()\<close> is closed.  The value \<open>nil\<close> of type error is \<open>None\<close>.\<close>

datatype error = Canceled | DeadlineExceeded

datatype ctx = Background | Ctx nat

text \<open>The panics of the package and of the runtime operations it calls.\<close>

datatype fault =
    CondCopied
  | NotInitialized
  | CloseOfNilChannel
  | CloseOfClosedChannel
  | SendOnClosedChannel
  | UnlockOfUnlockedMutex

datatype result = Done | WaitRet "error option"

text \<open>
  Program points.  \<open>B\<close>, \<open>S\<close> and \<open>W\<close> stand for Broadcast, Signal and WaitContext; a
  point names the statement the goroutine executes next.  \<open>S_select\<close> and \<open>S_lower\<close> occur
  in the first listing only.
\<close>

datatype pc =
    Idle
  | Returned result
  | Panicked fault
  | B_check | B_lock | B_body | B_unlock
  | S_check | S_lock | S_body | S_select | S_lower | S_unlock
  | W_check ctx
  | W_lock ctx
  | W_reg ctx
  | W_unlock ctx "chan_ref option"
  | W_Lunlock ctx "chan_ref option"
  | W_select ctx "chan_ref option"
  | W_relock "error option"
  | W_dec "error option"
  | W_unlock2 "error option"
  | W_Llock "error option"

subsection \<open>The program state\<close>

text \<open>
  The fields both listings share, followed by the rest of the program state: the address
  of the Cond, the channels, the contexts and the goroutines.  \<open>L\<close> is the caller's
  Locker with its holder.  \<open>waiters\<close> is Go's \<open>int\<close>, taken as an integer: it stays
  between 0 and the number of goroutines in the wait path, far from the bounds of 64 bits.
\<close>

record state =
  L :: "tid option"
  ch :: "chan_ref option"
  waiters :: int
  checker :: uintptr
  addr :: uintptr
  chans :: "chan_ref \<Rightarrow> chan"
  nchans :: nat
  cancelled :: "nat \<Rightarrow> error option"
  pc :: "tid \<Rightarrow> pc"
  nthreads :: nat

record state_mtx = state +
  mtx :: "tid option"

record state_mtxCh = state +
  mtxCh :: "chan_ref option"
  delegateWaiterLowering :: "chan_ref option"

definition goto :: "tid \<Rightarrow> pc \<Rightarrow> 'a state_scheme \<Rightarrow> 'a state_scheme" where
  "goto t p s = s\<lparr>pc := (pc s)(t := p)\<rparr>"

definition idle :: "pc \<Rightarrow> bool" where
  "idle p = (case p of Idle \<Rightarrow> True | Returned r \<Rightarrow> True | _ \<Rightarrow> False)"

definition ctx_err :: "'a state_scheme \<Rightarrow> ctx \<Rightarrow> error option" where
  "ctx_err s x = (case x of Background \<Rightarrow> None | Ctx k \<Rightarrow> cancelled s k)"

subsection \<open>copyChecker.check\<close>

text \<open>
  \<open>atomic.CompareAndSwapUintptr\<close>: whether the swap happened, and the new content.
\<close>

definition CompareAndSwapUintptr :: "uintptr \<Rightarrow> uintptr \<Rightarrow> uintptr \<Rightarrow> bool \<times> uintptr" where
  "CompareAndSwapUintptr v old new = (if v = old then (True, new) else (False, v))"

text \<open>
  \<open>check p v\<close>: the checker lies at address \<open>p\<close> and holds \<open>v\<close>.  The conjunction is
  evaluated left to right and stops at the first false conjunct, as \<open>&&\<close> does.  The
  function is run as one step: the only store to the checker is the swap from 0 to \<open>p\<close>,
  the same for every goroutine, so the outcome does not depend on how checks interleave.
\<close>

definition check :: "uintptr \<Rightarrow> uintptr \<Rightarrow> fault + uintptr" where
  "check p v =
     (if v \<noteq> p then
        (case CompareAndSwapUintptr v 0 p of
           (swapped, v') \<Rightarrow>
             if \<not> swapped then (if v' \<noteq> p then Inl CondCopied else Inr v') else Inr v')
      else Inr v)"

definition checker_check :: "tid \<Rightarrow> pc \<Rightarrow> 'a state_scheme \<Rightarrow> 'a state_scheme" where
  "checker_check t p s =
     (case check (addr s) (checker s) of
        Inl f \<Rightarrow> goto t (Panicked f) s
      | Inr v \<Rightarrow> goto t p (s\<lparr>checker := v\<rparr>))"

subsection \<open>Channel operations\<close>

definition chan_make :: "nat \<Rightarrow> 'a state_scheme \<Rightarrow> 'a state_scheme" where
  "chan_make n s = s\<lparr>chans := (chans s)(nchans s := make_chan n), nchans := Suc (nchans s)\<rparr>"

definition chan_close :: "chan_ref option \<Rightarrow> 'a state_scheme \<Rightarrow> fault + 'a state_scheme" where
  "chan_close r s =
     (case r of
        None \<Rightarrow> Inl CloseOfNilChannel
      | Some i \<Rightarrow>
          if closed (chans s i) then Inl CloseOfClosedChannel
          else Inr (s\<lparr>chans := (chans s)(i := (chans s i)\<lparr>closed := True\<rparr>)\<rparr>))"

text \<open>\<open>select { case c <- struct{}{}: default: }\<close>; a nil channel is never ready.\<close>

definition try_send :: "chan_ref option \<Rightarrow> 'a state_scheme \<Rightarrow> fault + 'a state_scheme" where
  "try_send r s =
     (case r of
        None \<Rightarrow> Inr s
      | Some i \<Rightarrow>
          if closed (chans s i) then Inl SendOnClosedChannel
          else if buf (chans s i) < cap (chans s i)
          then Inr (s\<lparr>chans := (chans s)(i := (chans s i)\<lparr>buf := Suc (buf (chans s i))\<rparr>)\<rparr>)
          else Inr s)"

text \<open>A receive is ready when an element is queued or the channel is closed; a receive from
  the nil channel never is.\<close>

definition can_recv :: "chan_ref \<Rightarrow> 'a state_scheme \<Rightarrow> bool" where
  "can_recv i s = (0 < buf (chans s i) \<or> closed (chans s i))"

definition recv :: "chan_ref \<Rightarrow> 'a state_scheme \<Rightarrow> 'a state_scheme" where
  "recv i s =
     (if 0 < buf (chans s i)
      then s\<lparr>chans := (chans s)(i := (chans s i)\<lparr>buf := buf (chans s i) - 1\<rparr>)\<rparr>
      else s)"

text \<open>\<open>select { case <-c: default: }\<close>\<close>

definition try_recv :: "chan_ref option \<Rightarrow> 'a state_scheme \<Rightarrow> 'a state_scheme" where
  "try_recv r s = (case r of None \<Rightarrow> s | Some i \<Rightarrow> recv i s)"

subsection \<open>The caller's Locker\<close>

definition L_Lock :: "tid \<Rightarrow> pc \<Rightarrow> 'a state_scheme \<Rightarrow> 'a state_scheme option" where
  "L_Lock t p s = (if L s = None then Some (goto t p (s\<lparr>L := Some t\<rparr>)) else None)"

definition L_Unlock :: "tid \<Rightarrow> pc \<Rightarrow> 'a state_scheme \<Rightarrow> 'a state_scheme" where
  "L_Unlock t p s =
     (if L s = None then goto t (Panicked UnlockOfUnlockedMutex) s
      else goto t p (s\<lparr>L := None\<rparr>))"

subsection \<open>Events\<close>

datatype call = OpBroadcast | OpSignal | OpWait | OpWaitContext ctx

text \<open>
  \<open>Invoke\<close> is a call of a method, \<open>Tau\<close> the next statement of a goroutine, \<open>WakeCh\<close> and
  \<open>WakeCtx\<close> the two cases of the select in WaitContext, \<open>Cancel\<close> the cancellation of a
  context, \<open>Acquire\<close> and \<open>Release\<close> the caller locking and unlocking \<open>c.L\<close> outside
  the package.  \<open>Handoff s w\<close> and \<open>Delegate w s\<close> are the two communications on the
  unbuffered channels of the first listing, between a signaller \<open>s\<close> and a waiter \<open>w\<close>.
  \<open>Recover\<close> is a deferred function of the caller calling \<open>recover()\<close> while a call of
  the package panics.
\<close>

datatype event =
    Invoke tid call
  | Tau tid
  | WakeCh tid
  | WakeCtx tid
  | Cancel nat error
  | Acquire tid
  | Release tid
  | Handoff tid tid
  | Delegate tid tid
  | Recover tid

text \<open>Wait and WaitContext are called with \<open>c.L\<close> held; \<open>Wait()\<close> is
  \<open>WaitContext(context.Background())\<close>.\<close>

definition entry :: "call \<Rightarrow> pc" where
  "entry m = (case m of
      OpBroadcast \<Rightarrow> B_check
    | OpSignal \<Rightarrow> S_check
    | OpWait \<Rightarrow> W_check Background
    | OpWaitContext x \<Rightarrow> W_check x)"

definition needs_L :: "call \<Rightarrow> bool" where
  "needs_L m = (case m of OpBroadcast \<Rightarrow> False | OpSignal \<Rightarrow> False | _ \<Rightarrow> True)"

definition invoke :: "tid \<Rightarrow> call \<Rightarrow> 'a state_scheme \<Rightarrow> 'a state_scheme option" where
  "invoke t m s =
     (if idle (pc s t) \<and> (needs_L m \<longrightarrow> L s = Some t) then Some (goto t (entry m) s) else None)"

definition acquire :: "tid \<Rightarrow> 'a state_scheme \<Rightarrow> 'a state_scheme option" where
  "acquire t s = (if idle (pc s t) then L_Lock t Idle s else None)"

definition release :: "tid \<Rightarrow> 'a state_scheme \<Rightarrow> 'a state_scheme option" where
  "release t s = (if idle (pc s t) \<and> L s = Some t then Some (goto t Idle (s\<lparr>L := None\<rparr>)) else None)"

definition cancel :: "nat \<Rightarrow> error \<Rightarrow> 'a state_scheme \<Rightarrow> 'a state_scheme option" where
  "cancel k e s =
     (if cancelled s k = None then Some (s\<lparr>cancelled := (cancelled s)(k := Some e)\<rparr>) else None)"

text \<open>
  \<open>panic("contextcond.Cond is copied")\<close> (lines 136 and 249),
  \<open>panic("contextcond.Cond must be initialized with NewCond")\<close> (line 40) and the run-time
  panics of \<open>close\<close> and of a send are values a deferred \<open>recover()\<close> receives.  The
  unlock of an unlocked \<open>sync.Mutex\<close> is a fatal error of the runtime, which \<open>recover()\<close>
  does not stop.
\<close>

fun recoverable :: "fault \<Rightarrow> bool" where
  "recoverable UnlockOfUnlockedMutex = False"
| "recoverable f = True"

text \<open>The panicking call is abandoned with the Cond as it stands, locks included, and the
  goroutine is back in its caller.\<close>

definition recover :: "tid \<Rightarrow> 'a state_scheme \<Rightarrow> 'a state_scheme option" where
  "recover t s =
     (case pc s t of
        Panicked f \<Rightarrow> if recoverable f then Some (goto t Idle s) else None
      | _ \<Rightarrow> None)"

subsection \<open>The listing with \<open>mtx sync.Mutex\<close> (lines 139--251)\<close>

definition NewCond_mtx :: "uintptr \<Rightarrow> nat \<Rightarrow> state_mtx" where
  "NewCond_mtx a n =
     \<lparr>L = None, ch = None, waiters = 0, checker = 0, addr = a,
      chans = (\<lambda>i. make_chan 0), nchans = 0, cancelled = (\<lambda>k. None),
      pc = (\<lambda>t. Idle), nthreads = n, mtx = None\<rparr>"

definition mtx_Lock :: "tid \<Rightarrow> pc \<Rightarrow> state_mtx \<Rightarrow> state_mtx option" where
  "mtx_Lock t p s = (if mtx s = None then Some (goto t p (s\<lparr>mtx := Some t\<rparr>)) else None)"

definition mtx_Unlock :: "tid \<Rightarrow> pc \<Rightarrow> state_mtx \<Rightarrow> state_mtx" where
  "mtx_Unlock t p s =
     (if mtx s = None then goto t (Panicked UnlockOfUnlockedMutex) s
      else goto t p (s\<lparr>mtx := None\<rparr>))"

text \<open>Lines 176--179: \<open>if c.waiters > 0 { close(c.ch); c.ch = make(chan struct{}, 1) }\<close>\<close>

definition Broadcast_body_mtx :: "state_mtx \<Rightarrow> fault + state_mtx" where
  "Broadcast_body_mtx s =
     (if 0 < waiters s then
        (case chan_close (ch s) s of
           Inl f \<Rightarrow> Inl f
         | Inr s' \<Rightarrow> Inr ((chan_make 1 s')\<lparr>ch := Some (nchans s')\<rparr>))
      else Inr s)"

text \<open>Lines 191--196: \<open>if c.waiters > 0 { select { case c.ch <- struct{}{}: default: } }\<close>\<close>

definition Signal_body_mtx :: "state_mtx \<Rightarrow> fault + state_mtx" where
  "Signal_body_mtx s = (if 0 < waiters s then try_send (ch s) s else Inr s)"

text \<open>Lines 210--214: \<open>if c.ch == nil { c.ch = make(chan struct{}, 1) }; ch := c.ch;
  c.waiters++\<close>.  The result is the channel captured and the new state.\<close>

definition register_mtx :: "state_mtx \<Rightarrow> chan_ref option \<times> state_mtx" where
  "register_mtx s =
     (let s1 = (if ch s = None then (chan_make 1 s)\<lparr>ch := Some (nchans s)\<rparr> else s)
      in (ch s1, s1\<lparr>waiters := waiters s1 + 1\<rparr>))"

text \<open>Lines 228--234: \<open>c.waiters--; if c.waiters == 0 { select { case <-c.ch: default: } }\<close>\<close>

definition unregister_mtx :: "state_mtx \<Rightarrow> state_mtx" where
  "unregister_mtx s =
     (let s1 = s\<lparr>waiters := waiters s - 1\<rparr>
      in if waiters s1 = 0 then try_recv (ch s1) s1 else s1)"

definition or_panic :: "tid \<Rightarrow> pc \<Rightarrow> 'a state_scheme \<Rightarrow> fault + 'a state_scheme \<Rightarrow> 'a state_scheme" where
  "or_panic t p s r = (case r of Inl f \<Rightarrow> goto t (Panicked f) s | Inr s' \<Rightarrow> goto t p s')"

fun Broadcast_mtx :: "tid \<Rightarrow> pc \<Rightarrow> state_mtx \<Rightarrow> state_mtx option" where
  "Broadcast_mtx t B_check s = Some (checker_check t B_lock s)"
| "Broadcast_mtx t B_lock s = mtx_Lock t B_body s"
| "Broadcast_mtx t B_body s = Some (or_panic t B_unlock s (Broadcast_body_mtx s))"
| "Broadcast_mtx t B_unlock s = Some (mtx_Unlock t (Returned Done) s)"
| "Broadcast_mtx t p s = None"

fun Signal_mtx :: "tid \<Rightarrow> pc \<Rightarrow> state_mtx \<Rightarrow> state_mtx option" where
  "Signal_mtx t S_check s = Some (checker_check t S_lock s)"
| "Signal_mtx t S_lock s = mtx_Lock t S_body s"
| "Signal_mtx t S_body s = Some (or_panic t S_unlock s (Signal_body_mtx s))"
| "Signal_mtx t S_unlock s = Some (mtx_Unlock t (Returned Done) s)"
| "Signal_mtx t p s = None"

text \<open>The statements of WaitContext but its select, which is the events \<open>WakeCh\<close> and
  \<open>WakeCtx\<close> below.\<close>

fun WaitContext_mtx :: "tid \<Rightarrow> pc \<Rightarrow> state_mtx \<Rightarrow> state_mtx option" where
  "WaitContext_mtx t (W_check x) s = Some (checker_check t (W_lock x) s)"
| "WaitContext_mtx t (W_lock x) s = mtx_Lock t (W_reg x) s"
| "WaitContext_mtx t (W_reg x) s = (case register_mtx s of (r, s') \<Rightarrow> Some (goto t (W_unlock x r) s'))"
| "WaitContext_mtx t (W_unlock x r) s = Some (mtx_Unlock t (W_Lunlock x r) s)"
| "WaitContext_mtx t (W_Lunlock x r) s = Some (L_Unlock t (W_select x r) s)"
| "WaitContext_mtx t (W_relock e) s = mtx_Lock t (W_dec e) s"
| "WaitContext_mtx t (W_dec e) s = Some (goto t (W_unlock2 e) (unregister_mtx s))"
| "WaitContext_mtx t (W_unlock2 e) s = Some (mtx_Unlock t (W_Llock e) s)"
| "WaitContext_mtx t (W_Llock e) s = L_Lock t (Returned (WaitRet e)) s"
| "WaitContext_mtx t p s = None"

text \<open>Lines 220--225: the select.  \<open>case <-ch: err = nil\<close> and
  \<open>case <-ctx.Done(): err = ctx.Err()\<close>.\<close>

definition wake_ch_mtx :: "tid \<Rightarrow> state_mtx \<Rightarrow> state_mtx option" where
  "wake_ch_mtx t s =
     (case pc s t of
        W_select x (Some r) \<Rightarrow>
          if can_recv r s then Some (goto t (W_relock None) (recv r s)) else None
      | _ \<Rightarrow> None)"

definition wake_ctx :: "tid \<Rightarrow> 'a state_scheme \<Rightarrow> 'a state_scheme option" where
  "wake_ctx t s =
     (case pc s t of
        W_select x r \<Rightarrow>
          (case ctx_err s x of None \<Rightarrow> None | Some e \<Rightarrow> Some (goto t (W_relock (Some e)) s))
      | _ \<Rightarrow> None)"

definition tau_mtx :: "tid \<Rightarrow> state_mtx \<Rightarrow> state_mtx option" where
  "tau_mtx t s =
     (case Broadcast_mtx t (pc s t) s of
        Some s' \<Rightarrow> Some s'
      | None \<Rightarrow>
          (case Signal_mtx t (pc s t) s of
             Some s' \<Rightarrow> Some s'
           | None \<Rightarrow> WaitContext_mtx t (pc s t) s))"

fun event_mtx :: "event \<Rightarrow> state_mtx \<Rightarrow> state_mtx option" where
  "event_mtx (Invoke t m) s = (if t < nthreads s then invoke t m s else None)"
| "event_mtx (Tau t) s = (if t < nthreads s then tau_mtx t s else None)"
| "event_mtx (WakeCh t) s = (if t < nthreads s then wake_ch_mtx t s else None)"
| "event_mtx (WakeCtx t) s = (if t < nthreads s then wake_ctx t s else None)"
| "event_mtx (Cancel k e) s = cancel k e s"
| "event_mtx (Acquire t) s = (if t < nthreads s then acquire t s else None)"
| "event_mtx (Release t) s = (if t < nthreads s then release t s else None)"
| "event_mtx (Handoff t u) s = None"
| "event_mtx (Delegate t u) s = None"
| "event_mtx (Recover t) s = (if t < nthreads s then recover t s else None)"

fun run_mtx :: "event list \<Rightarrow> state_mtx \<Rightarrow> state_mtx option" where
  "run_mtx [] s = Some s"
| "run_mtx (e # es) s = (case event_mtx e s of None \<Rightarrow> None | Some s' \<Rightarrow> run_mtx es s')"

inductive reach_mtx :: "state_mtx \<Rightarrow> bool" where
  reach_init: "a \<noteq> 0 \<Longrightarrow> reach_mtx (NewCond_mtx a n)"
| reach_step: "reach_mtx s \<Longrightarrow> event_mtx e s = Some s' \<Longrightarrow> reach_mtx s'"

subsection \<open>The listing with \<open>mtxCh chan struct{}\<close> (lines 1--138)\<close>

text \<open>Lines 29--36: NewCond makes the three channels.\<close>

definition NewCond_mtxCh :: "uintptr \<Rightarrow> nat \<Rightarrow> state_mtxCh" where
  "NewCond_mtxCh a n =
     \<lparr>L = None, ch = Some 1, waiters = 0, checker = 0, addr = a,
      chans = (\<lambda>i. if i = 0 then make_chan 1 else make_chan 0), nchans = 3,
      cancelled = (\<lambda>k. None), pc = (\<lambda>t. Idle), nthreads = n,
      mtxCh = Some 0, delegateWaiterLowering = Some 2\<rparr>"

text \<open>A Cond that was not built by NewCond: the zero value, with \<open>L\<close> assigned by the
  caller.\<close>

definition zero_mtxCh :: "uintptr \<Rightarrow> nat \<Rightarrow> state_mtxCh" where
  "zero_mtxCh a n =
     \<lparr>L = None, ch = None, waiters = 0, checker = 0, addr = a,
      chans = (\<lambda>i. make_chan 0), nchans = 0,
      cancelled = (\<lambda>k. None), pc = (\<lambda>t. Idle), nthreads = n,
      mtxCh = None, delegateWaiterLowering = None\<rparr>"

text \<open>Lines 38--43: \<open>checks\<close>.\<close>

definition checks :: "tid \<Rightarrow> pc \<Rightarrow> state_mtxCh \<Rightarrow> state_mtxCh" where
  "checks t p s =
     (if mtxCh s = None then goto t (Panicked NotInitialized) s else checker_check t p s)"

text \<open>\<open>c.mtxCh <- struct{}{} // lock\<close>: a send that waits for room in the buffer; a send on
  the nil channel waits for ever.\<close>

definition mtxCh_lock :: "tid \<Rightarrow> pc \<Rightarrow> state_mtxCh \<Rightarrow> state_mtxCh option" where
  "mtxCh_lock t p s =
     (case mtxCh s of
        None \<Rightarrow> None
      | Some m \<Rightarrow>
          if closed (chans s m) then Some (goto t (Panicked SendOnClosedChannel) s)
          else if buf (chans s m) < cap (chans s m)
          then Some (goto t p (s\<lparr>chans := (chans s)(m := (chans s m)\<lparr>buf := Suc (buf (chans s m))\<rparr>)\<rparr>))
          else None)"

text \<open>\<open><-c.mtxCh // unlock\<close>: a receive that waits for an element.\<close>

definition mtxCh_unlock :: "tid \<Rightarrow> pc \<Rightarrow> state_mtxCh \<Rightarrow> state_mtxCh option" where
  "mtxCh_unlock t p s =
     (case mtxCh s of
        None \<Rightarrow> None
      | Some m \<Rightarrow> if can_recv m s then Some (goto t p (recv m s)) else None)"

text \<open>Lines 51--54: \<open>if c.waiters > 0 { close(c.ch); c.ch = make(chan struct{}) }\<close>\<close>

definition Broadcast_body_mtxCh :: "state_mtxCh \<Rightarrow> fault + state_mtxCh" where
  "Broadcast_body_mtxCh s =
     (if 0 < waiters s then
        (case chan_close (ch s) s of
           Inl f \<Rightarrow> Inl f
         | Inr s' \<Rightarrow> Inr ((chan_make 0 s')\<lparr>ch := Some (nchans s')\<rparr>))
      else Inr s)"

fun Broadcast_mtxCh :: "tid \<Rightarrow> pc \<Rightarrow> state_mtxCh \<Rightarrow> state_mtxCh option" where
  "Broadcast_mtxCh t B_check s = Some (checks t B_lock s)"
| "Broadcast_mtxCh t B_lock s = mtxCh_lock t B_body s"
| "Broadcast_mtxCh t B_body s = Some (or_panic t B_unlock s (Broadcast_body_mtxCh s))"
| "Broadcast_mtxCh t B_unlock s = mtxCh_unlock t (Returned Done) s"
| "Broadcast_mtxCh t p s = None"

text \<open>
  Lines 66--77.  \<open>S_body\<close> is the loop condition \<open>c.waiters > 0\<close>.  At \<open>S_select\<close> the
  goroutine waits in a select without default; its two cases are the events \<open>Handoff\<close>
  and \<open>Delegate\<close>, and the only statement it can run alone is the panic of a send on a
  closed channel.  \<open>S_lower\<close> is \<open>c.waiters--\<close>, after which the loop starts over.
\<close>

fun Signal_mtxCh :: "tid \<Rightarrow> pc \<Rightarrow> state_mtxCh \<Rightarrow> state_mtxCh option" where
  "Signal_mtxCh t S_check s = Some (checks t S_lock s)"
| "Signal_mtxCh t S_lock s = mtxCh_lock t S_body s"
| "Signal_mtxCh t S_body s = Some (goto t (if 0 < waiters s then S_select else S_unlock) s)"
| "Signal_mtxCh t S_select s =
     (case ch s of
        None \<Rightarrow> None
      | Some r \<Rightarrow> if closed (chans s r) then Some (goto t (Panicked SendOnClosedChannel) s) else None)"
| "Signal_mtxCh t S_lower s = Some (goto t S_body (s\<lparr>waiters := waiters s - 1\<rparr>))"
| "Signal_mtxCh t S_unlock s = mtxCh_unlock t (Returned Done) s"
| "Signal_mtxCh t p s = None"

text \<open>
  Lines 90--126, but the selects.  \<open>W_reg\<close> is \<open>ch := c.ch; c.waiters++\<close>; \<open>W_relock\<close> is
  the lock case of the second select (line 111); \<open>W_dec\<close> is \<open>c.waiters--\<close> (line 120),
  reached with the lock either taken there or inherited from the signaller.
\<close>

fun WaitContext_mtxCh :: "tid \<Rightarrow> pc \<Rightarrow> state_mtxCh \<Rightarrow> state_mtxCh option" where
  "WaitContext_mtxCh t (W_check x) s = Some (checks t (W_lock x) s)"
| "WaitContext_mtxCh t (W_lock x) s = mtxCh_lock t (W_reg x) s"
| "WaitContext_mtxCh t (W_reg x) s = Some (goto t (W_unlock x (ch s)) (s\<lparr>waiters := waiters s + 1\<rparr>))"
| "WaitContext_mtxCh t (W_unlock x r) s = mtxCh_unlock t (W_Lunlock x r) s"
| "WaitContext_mtxCh t (W_Lunlock x r) s = Some (L_Unlock t (W_select x r) s)"
| "WaitContext_mtxCh t (W_relock e) s = mtxCh_lock t (W_dec e) s"
| "WaitContext_mtxCh t (W_dec e) s = Some (goto t (W_unlock2 e) (s\<lparr>waiters := waiters s - 1\<rparr>))"
| "WaitContext_mtxCh t (W_unlock2 e) s = mtxCh_unlock t (W_Llock e) s"
| "WaitContext_mtxCh t (W_Llock e) s = L_Lock t (Returned (WaitRet e)) s"
| "WaitContext_mtxCh t p s = None"

text \<open>
  Line 101, \<open>case _, signalled = <-ch\<close>, when no sender takes part: an element from the
  buffer (\<open>signalled\<close> is true, the second select is skipped) or the closed channel
  (\<open>signalled\<close> is false).
\<close>

definition wake_ch_mtxCh :: "tid \<Rightarrow> state_mtxCh \<Rightarrow> state_mtxCh option" where
  "wake_ch_mtxCh t s =
     (case pc s t of
        W_select x (Some r) \<Rightarrow>
          if 0 < buf (chans s r) then Some (goto t (W_dec None) (recv r s))
          else if closed (chans s r) then Some (goto t (W_relock None) s)
          else None
      | _ \<Rightarrow> None)"

text \<open>
  Lines 68 and 101 together: the signaller \<open>g\<close> sends on \<open>c.ch\<close> and the waiter \<open>w\<close>
  receives from the channel it captured, which is the same channel.  The signaller
  returns without unlocking; the waiter has \<open>signalled\<close> true and goes on to
  \<open>c.waiters--\<close>.
\<close>

definition handoff :: "tid \<Rightarrow> tid \<Rightarrow> state_mtxCh \<Rightarrow> state_mtxCh option" where
  "handoff g w s =
     (case (pc s g, pc s w) of
        (S_select, W_select x (Some r)) \<Rightarrow>
          if ch s = Some r \<and> \<not> closed (chans s r)
          then Some (goto w (W_dec None) (goto g (Returned Done) s))
          else None
      | _ \<Rightarrow> None)"

text \<open>
  Lines 71 and 112 together: the waiter \<open>w\<close> sends on \<open>c.delegateWaiterLowering\<close> and
  the signaller \<open>g\<close> receives.  The waiter has \<open>loweringDelegated\<close> true and goes on to
  \<open>c.L.Lock()\<close>; the signaller goes on to \<open>c.waiters--\<close>.  (Nothing in the package
  closes this channel.)
\<close>

definition delegate :: "tid \<Rightarrow> tid \<Rightarrow> state_mtxCh \<Rightarrow> state_mtxCh option" where
  "delegate w g s =
     (case (pc s w, pc s g) of
        (W_relock e, S_select) \<Rightarrow>
          (case delegateWaiterLowering s of
             None \<Rightarrow> None
           | Some d \<Rightarrow>
               if closed (chans s d) then None
               else Some (goto g S_lower (goto w (W_Llock e) s)))
      | _ \<Rightarrow> None)"

definition tau_mtxCh :: "tid \<Rightarrow> state_mtxCh \<Rightarrow> state_mtxCh option" where
  "tau_mtxCh t s =
     (case Broadcast_mtxCh t (pc s t) s of
        Some s' \<Rightarrow> Some s'
      | None \<Rightarrow>
          (case Signal_mtxCh t (pc s t) s of
             Some s' \<Rightarrow> Some s'
           | None \<Rightarrow> WaitContext_mtxCh t (pc s t) s))"

fun event_mtxCh :: "event \<Rightarrow> state_mtxCh \<Rightarrow> state_mtxCh option" where
  "event_mtxCh (Invoke t m) s = (if t < nthreads s then invoke t m s else None)"
| "event_mtxCh (Tau t) s = (if t < nthreads s then tau_mtxCh t s else None)"
| "event_mtxCh (WakeCh t) s = (if t < nthreads s then wake_ch_mtxCh t s else None)"
| "event_mtxCh (WakeCtx t) s = (if t < nthreads s then wake_ctx t s else None)"
| "event_mtxCh (Cancel k e) s = cancel k e s"
| "event_mtxCh (Acquire t) s = (if t < nthreads s then acquire t s else None)"
| "event_mtxCh (Release t) s = (if t < nthreads s then release t s else None)"
| "event_mtxCh (Handoff g w) s =
     (if g < nthreads s \<and> w < nthreads s \<and> g \<noteq> w then handoff g w s else None)"
| "event_mtxCh (Delegate w g) s =
     (if g < nthreads s \<and> w < nthreads s \<and> g \<noteq> w then delegate w g s else None)"
| "event_mtxCh (Recover t) s = (if t < nthreads s then recover t s else None)"

fun run_mtxCh :: "event list \<Rightarrow> state_mtxCh \<Rightarrow> state_mtxCh option" where
  "run_mtxCh [] s = Some s"
| "run_mtxCh (e # es) s = (case event_mtxCh e s of None \<Rightarrow> None | Some s' \<Rightarrow> run_mtxCh es s')"

inductive reach_mtxCh :: "state_mtxCh \<Rightarrow> bool" where
  reachCh_init: "a \<noteq> 0 \<Longrightarrow> reach_mtxCh (NewCond_mtxCh a n)"
| reachCh_step: "reach_mtxCh s \<Longrightarrow> event_mtxCh e s = Some s' \<Longrightarrow> reach_mtxCh s'"

subsection \<open>Where a goroutine stands\<close>

text \<open>A goroutine at one of these points of WaitContext has not released \<open>c.L\<close> yet, or has
  locked it again and returned.\<close>

fun holds_L :: "pc \<Rightarrow> bool" where
  "holds_L (W_check x) = True"
| "holds_L (W_lock x) = True"
| "holds_L (W_reg x) = True"
| "holds_L (W_unlock x r) = True"
| "holds_L (W_Lunlock x r) = True"
| "holds_L (Returned (WaitRet e)) = True"
| "holds_L p = False"

text \<open>Between \<open>c.mtx.Lock()\<close> and \<open>c.mtx.Unlock()\<close>.\<close>

fun crit_mtx :: "pc \<Rightarrow> bool" where
  "crit_mtx B_body = True"
| "crit_mtx B_unlock = True"
| "crit_mtx S_body = True"
| "crit_mtx S_unlock = True"
| "crit_mtx (W_reg x) = True"
| "crit_mtx (W_unlock x r) = True"
| "crit_mtx (W_dec e) = True"
| "crit_mtx (W_unlock2 e) = True"
| "crit_mtx p = False"

text \<open>In the wait path: after \<open>c.waiters++\<close> and before \<open>c.waiters--\<close>.\<close>

fun counted :: "pc \<Rightarrow> bool" where
  "counted (W_unlock x r) = True"
| "counted (W_Lunlock x r) = True"
| "counted (W_select x r) = True"
| "counted (W_relock e) = True"
| "counted (W_dec e) = True"
| "counted p = False"

text \<open>The channel a waiter captured in \<open>ch := c.ch\<close> and has not received from yet.\<close>

fun captured :: "pc \<Rightarrow> chan_ref option" where
  "captured (W_unlock x r) = r"
| "captured (W_Lunlock x r) = r"
| "captured (W_select x r) = r"
| "captured p = None"

text \<open>The error a call of WaitContext is going to return, once its select has chosen.\<close>

fun chosen :: "pc \<Rightarrow> error option option" where
  "chosen (W_relock e) = Some e"
| "chosen (W_dec e) = Some e"
| "chosen (W_unlock2 e) = Some e"
| "chosen (W_Llock e) = Some e"
| "chosen (Returned (WaitRet e)) = Some e"
| "chosen p = None"

fun panicked :: "pc \<Rightarrow> bool" where
  "panicked (Panicked f) = True"
| "panicked p = False"

text \<open>How many of the goroutines \<open>0, ..., n - 1\<close> stand at a point that satisfies \<open>P\<close>.\<close>

fun count_pc :: "(pc \<Rightarrow> bool) \<Rightarrow> (tid \<Rightarrow> pc) \<Rightarrow> nat \<Rightarrow> nat" where
  "count_pc P f 0 = 0"
| "count_pc P f (Suc n) = count_pc P f n + (if P (f n) then 1 else 0)"

subsection \<open>Invariants of the listing with \<open>mtx\<close>\<close>

definition inv_L :: "'a state_scheme \<Rightarrow> bool" where
  "inv_L s = (\<forall>t. holds_L (pc s t) \<longrightarrow> L s = Some t)"

definition inv_owner :: "state_mtx \<Rightarrow> bool" where
  "inv_owner s = (\<forall>t. crit_mtx (pc s t) \<longrightarrow> mtx s = Some t)"

definition inv_count :: "'a state_scheme \<Rightarrow> bool" where
  "inv_count s = (waiters s = int (count_pc counted (pc s) (nthreads s)))"

definition inv_checker :: "'a state_scheme \<Rightarrow> bool" where
  "inv_checker s = (addr s \<noteq> 0 \<and> (checker s = 0 \<or> checker s = addr s))"

text \<open>The current channel is the one made last and is open; the channels made before it
  are closed.\<close>

definition inv_cur :: "'a state_scheme \<Rightarrow> bool" where
  "inv_cur s =
     ((ch s = None \<longrightarrow> nchans s = 0) \<and>
      (\<forall>r. ch s = Some r \<longrightarrow> Suc r = nchans s \<and> \<not> closed (chans s r)) \<and>
      (\<forall>i. Suc i < nchans s \<longrightarrow> closed (chans s i)))"

text \<open>Every channel has capacity one and holds at most one token.\<close>

definition inv_cap :: "'a state_scheme \<Rightarrow> bool" where
  "inv_cap s = (\<forall>i. i < nchans s \<longrightarrow> cap (chans s i) = 1 \<and> buf (chans s i) \<le> 1)"

text \<open>A waiter captured a channel that exists.\<close>

definition inv_capt :: "'a state_scheme \<Rightarrow> bool" where
  "inv_capt s = (\<forall>t r. captured (pc s t) = Some r \<longrightarrow> r < nchans s)"

definition inv_token :: "'a state_scheme \<Rightarrow> bool" where
  "inv_token s = (\<forall>r. ch s = Some r \<and> 0 < buf (chans s r) \<longrightarrow> 0 < waiters s)"

definition inv_nil :: "'a state_scheme \<Rightarrow> bool" where
  "inv_nil s = (0 < waiters s \<longrightarrow> ch s \<noteq> None)"

definition inv_nopanic :: "'a state_scheme \<Rightarrow> bool" where
  "inv_nopanic s = (\<forall>t. \<not> panicked (pc s t))"

definition inv_range :: "'a state_scheme \<Rightarrow> bool" where
  "inv_range s = (\<forall>t. nthreads s \<le> t \<longrightarrow> pc s t = Idle)"

definition inv_mtx :: "state_mtx \<Rightarrow> bool" where
  "inv_mtx s =
     (inv_L s \<and> inv_owner s \<and> inv_count s \<and> inv_checker s \<and> inv_cur s \<and> inv_cap s \<and>
      inv_capt s \<and> inv_token s \<and> inv_nil s \<and> inv_nopanic s \<and> inv_range s)"

subsection \<open>Invariants of the listing with \<open>mtxCh\<close>\<close>

text \<open>Holding the lock: an element sent to \<open>mtxCh\<close> and not received yet.\<close>

fun crit_mtxCh :: "pc \<Rightarrow> bool" where
  "crit_mtxCh B_body = True"
| "crit_mtxCh B_unlock = True"
| "crit_mtxCh S_body = True"
| "crit_mtxCh S_select = True"
| "crit_mtxCh S_lower = True"
| "crit_mtxCh S_unlock = True"
| "crit_mtxCh (W_reg x) = True"
| "crit_mtxCh (W_unlock x r) = True"
| "crit_mtxCh (W_dec e) = True"
| "crit_mtxCh (W_unlock2 e) = True"
| "crit_mtxCh p = False"

text \<open>A decrement of \<open>c.waiters\<close> is outstanding: a waiter in the wait path that has not
  delegated it, or a signaller that has accepted one and stands before \<open>c.waiters--\<close>.\<close>

fun counted_mtxCh :: "pc \<Rightarrow> bool" where
  "counted_mtxCh S_lower = True"
| "counted_mtxCh p = counted p"

text \<open>The three channels of NewCond stay where they are and open; the current wake
  channel is another channel, and open.\<close>

definition inv_curCh :: "state_mtxCh \<Rightarrow> bool" where
  "inv_curCh s =
     (mtxCh s = Some 0 \<and> delegateWaiterLowering s = Some 2 \<and> 3 \<le> nchans s \<and>
      \<not> closed (chans s 0) \<and> \<not> closed (chans s 2) \<and>
      (\<exists>r. ch s = Some r \<and> r \<noteq> 0 \<and> r \<noteq> 2 \<and> r < nchans s \<and> \<not> closed (chans s r)))"

text \<open>Only \<open>mtxCh\<close> ever holds an element, and at most one.\<close>

definition inv_capCh :: "state_mtxCh \<Rightarrow> bool" where
  "inv_capCh s =
     (cap (chans s 0) = 1 \<and> buf (chans s 0) \<le> 1 \<and> (\<forall>i. i \<noteq> 0 \<longrightarrow> buf (chans s i) = 0))"

definition inv_captCh :: "state_mtxCh \<Rightarrow> bool" where
  "inv_captCh s = (\<forall>t r. captured (pc s t) = Some r \<longrightarrow> r \<noteq> 0 \<and> r < nchans s)"

definition inv_countCh :: "state_mtxCh \<Rightarrow> bool" where
  "inv_countCh s = (waiters s = int (count_pc counted_mtxCh (pc s) (nthreads s)))"

text \<open>As many goroutines hold the lock as \<open>mtxCh\<close> holds elements.\<close>

definition inv_lockCh :: "state_mtxCh \<Rightarrow> bool" where
  "inv_lockCh s = (int (buf (chans s 0)) = int (count_pc crit_mtxCh (pc s) (nthreads s)))"

definition inv_mtxCh :: "state_mtxCh \<Rightarrow> bool" where
  "inv_mtxCh s =
     (inv_L s \<and> inv_checker s \<and> inv_curCh s \<and> inv_capCh s \<and> inv_captCh s \<and> inv_countCh s \<and>
      inv_lockCh s \<and> inv_nopanic s \<and> inv_range s)"

subsection \<open>Schedules and runs used as examples\<close>

text \<open>An event that is not a new call by goroutine \<open>t\<close>, nor its caller taking or releasing
  \<open>c.L\<close> or recovering from a panic: while only such events happen, \<open>t\<close> stays in the call
  it is in.\<close>

fun quiet :: "tid \<Rightarrow> event \<Rightarrow> bool" where
  "quiet t (Invoke u m) = (u \<noteq> t)"
| "quiet t (Acquire u) = (u \<noteq> t)"
| "quiet t (Release u) = (u \<noteq> t)"
| "quiet t (Recover u) = (u \<noteq> t)"
| "quiet t e = True"

text \<open>The events goroutine \<open>t\<close> takes part in.\<close>

fun involves :: "tid \<Rightarrow> event \<Rightarrow> bool" where
  "involves t (Invoke u m) = (u = t)"
| "involves t (Tau u) = (u = t)"
| "involves t (WakeCh u) = (u = t)"
| "involves t (WakeCtx u) = (u = t)"
| "involves t (Cancel k e) = False"
| "involves t (Acquire u) = (u = t)"
| "involves t (Release u) = (u = t)"
| "involves t (Handoff g w) = (g = t \<or> w = t)"
| "involves t (Delegate w g) = (g = t \<or> w = t)"
| "involves t (Recover u) = (u = t)"

text \<open>Goroutine 0 locks \<open>c.L\<close>, calls WaitContext and runs up to its select.\<close>

definition to_select :: "event list" where
  "to_select = [Acquire 0, Invoke 0 (OpWaitContext (Ctx 0)), Tau 0, Tau 0, Tau 0, Tau 0, Tau 0]"

text \<open>Goroutine 0 locks \<open>c.L\<close>, calls WaitContext and has run \<open>c.waiters++\<close>.\<close>

definition to_registered :: "event list" where
  "to_registered = [Acquire 0, Invoke 0 (OpWaitContext (Ctx 0)), Tau 0, Tau 0, Tau 0]"

text \<open>A whole call of Signal or Broadcast by goroutine 1, alone.\<close>

definition call1 :: "call \<Rightarrow> event list" where
  "call1 m = [Invoke 1 m, Tau 1, Tau 1, Tau 1, Tau 1]"

text \<open>Goroutine 0 from after its select to its return.\<close>

definition to_return :: "event list" where
  "to_return = [Tau 0, Tau 0, Tau 0, Tau 0]"

text \<open>The waiter is woken by a Signal of goroutine 1 (second listing).\<close>

definition woken :: "event list" where
  "woken = to_select @ call1 OpSignal @ [WakeCh 0] @ to_return"

text \<open>The deadline of the waiter's context passes (second listing).\<close>

definition timed_out :: "event list" where
  "timed_out = to_select @ [Cancel 0 DeadlineExceeded, WakeCtx 0] @ to_return"

text \<open>First listing: goroutine 1 calls Signal and hands its token to the waiter, which
  lowers the count, unlocks and returns.\<close>

definition handed :: "event list" where
  "handed = to_select @ [Invoke 1 OpSignal, Tau 1, Tau 1, Tau 1, Handoff 1 0, Tau 0, Tau 0, Tau 0]"

text \<open>First listing: goroutine 1 waits in the select of Signal when the waiter's context is
  cancelled; the waiter delegates the lowering and returns, Signal lowers the count, finds
  no waiter left, unlocks and returns.\<close>

definition delegated :: "event list" where
  "delegated = to_select @ [Invoke 1 OpSignal, Tau 1, Tau 1, Tau 1, Cancel 0 Canceled, WakeCtx 0,
     Delegate 0 1, Tau 0, Tau 1, Tau 1, Tau 1]"

text \<open>Second listing: goroutines 0 and 2 wait at their selects, goroutine 1 has called
  Broadcast and stands before its close.\<close>

definition two_waiters :: "event list" where
  "two_waiters = to_select @ [Acquire 2, Invoke 2 OpWait, Tau 2, Tau 2, Tau 2, Tau 2, Tau 2] @
     [Invoke 1 OpBroadcast, Tau 1, Tau 1]"


text \<open>The zero value of the Cond of the second listing, with \<open>L\<close> assigned by the caller.\<close>

definition zero_mtx :: "uintptr \<Rightarrow> nat \<Rightarrow> state_mtx" where
  "zero_mtx a n =
     \<lparr>L = None, ch = None, waiters = 0, checker = 0, addr = a,
      chans = (\<lambda>i. make_chan 0), nchans = 0, cancelled = (\<lambda>k. None),
      pc = (\<lambda>t. Idle), nthreads = n, mtx = None\<rparr>"

text \<open>First listing: the waiter has registered and unlocked \<open>mtxCh\<close> but has not reached its
  select; goroutine 1 has called Signal and stands at the select of Signal.\<close>

definition signal_waits :: "event list" where
  "signal_waits = to_registered @ [Tau 0, Invoke 1 OpSignal, Tau 1, Tau 1, Tau 1]"



text \<open>\<open>c2 := *c\<close>: the fields of the Cond as they are, at another address.\<close>

definition copy_to :: "uintptr \<Rightarrow> 'a state_scheme \<Rightarrow> 'a state_scheme" where
  "copy_to q s = s\<lparr>addr := q\<rparr>"

text \<open>Goroutine 0 calls Signal and then Broadcast, each under a deferred \<open>recover()\<close>.\<close>

definition recovering :: "event list" where
  "recovering = [Invoke 0 OpSignal, Tau 0, Recover 0, Invoke 0 OpBroadcast, Tau 0, Recover 0]"

subsection \<open>Properties of \<open>check\<close>\<close>

lemma check_fresh: "check p 0 = Inr p"
  by (simp add: check_def CompareAndSwapUintptr_def)

lemma check_own: "check p p = Inr p"
  by (simp add: check_def)

lemma check_Inr: "check p v = Inr v' \<Longrightarrow> v' = p"
  by (auto simp: check_def CompareAndSwapUintptr_def split: if_splits)

subsection \<open>Counting goroutines\<close>

lemmas op_defs = goto_def checker_check_def chan_make_def chan_close_def try_send_def can_recv_def
  recv_def try_recv_def L_Lock_def L_Unlock_def invoke_def acquire_def release_def cancel_def
  entry_def needs_L_def idle_def ctx_err_def or_panic_def wake_ctx_def make_chan_def

lemma recoverD:
  assumes "recover t s = Some s'"
  obtains f where "pc s t = Panicked f" and "recoverable f" and "s' = goto t Idle s"
  using assms unfolding recover_def by (auto split: pc.splits if_splits)

lemmas mtx_defs = mtx_Lock_def mtx_Unlock_def Broadcast_body_mtx_def Signal_body_mtx_def
  register_mtx_def unregister_mtx_def tau_mtx_def wake_ch_mtx_def

lemmas mtxCh_defs = checks_def mtxCh_lock_def mtxCh_unlock_def Broadcast_body_mtxCh_def
  tau_mtxCh_def wake_ch_mtxCh_def handoff_def delegate_def

lemma count_pc_cong: "(\<forall>u<n. g u = f u) \<Longrightarrow> count_pc P g n = count_pc P f n"
  by (induction n) auto

lemma count_pc_change:
  "t < n \<Longrightarrow> g t = p \<Longrightarrow> (\<forall>u. u \<noteq> t \<longrightarrow> g u = f u) \<Longrightarrow>
   int (count_pc P g n) = int (count_pc P f n) - (if P (f t) then 1 else 0) + (if P p then 1 else 0)"
proof (induction n)
  case 0
  then show ?case by simp
next
  case (Suc n)
  show ?case
  proof (cases "t = n")
    case True
    have "count_pc P g n = count_pc P f n"
      using Suc.prems(3) True by (intro count_pc_cong) simp
    then show ?thesis using True Suc.prems(2) by simp
  next
    case False
    with Suc.prems have "t < n" by simp
    with Suc.IH Suc.prems False show ?thesis by simp
  qed
qed

lemma count_pc_upd:
  "t < n \<Longrightarrow> int (count_pc P (f(t := p)) n) =
     int (count_pc P f n) - (if P (f t) then 1 else 0) + (if P p then 1 else 0)"
  by (rule count_pc_change) simp_all

lemma count_pc_Idle: "\<not> P Idle \<Longrightarrow> count_pc P (\<lambda>t. Idle) n = 0"
  by (induction n) auto

lemma count_pc_pos: "t < n \<Longrightarrow> P (f t) \<Longrightarrow> 0 < count_pc P f n"
  by (induction n) (auto simp: less_Suc_eq)

text \<open>What the events of the selects need and do.\<close>

lemma wake_ch_mtxD:
  assumes "wake_ch_mtx t s = Some s'"
  shows "\<exists>x r. pc s t = W_select x (Some r) \<and> can_recv r s \<and> s' = goto t (W_relock None) (recv r s)"
  using assms by (auto simp: wake_ch_mtx_def split: pc.splits option.splits if_splits)

lemma wake_ch_mtxChD:
  assumes "wake_ch_mtxCh t s = Some s'"
  shows "\<exists>x r. pc s t = W_select x (Some r) \<and>
    (0 < buf (chans s r) \<and> s' = goto t (W_dec None) (recv r s) \<or>
     buf (chans s r) = 0 \<and> closed (chans s r) \<and> s' = goto t (W_relock None) s)"
  using assms by (auto simp: wake_ch_mtxCh_def split: pc.splits option.splits if_splits)

lemma wake_ctxD:
  assumes "wake_ctx t s = Some s'"
  shows "\<exists>x r c. pc s t = W_select x r \<and> ctx_err s x = Some c \<and> s' = goto t (W_relock (Some c)) s"
  using assms by (auto simp: wake_ctx_def split: pc.splits option.splits)

lemma handoffD:
  assumes "handoff g w s = Some s'"
  shows "\<exists>x r. pc s g = S_select \<and> pc s w = W_select x (Some r) \<and> ch s = Some r \<and>
    \<not> closed (chans s r) \<and> s' = goto w (W_dec None) (goto g (Returned Done) s)"
  using assms by (auto simp: handoff_def split: pc.splits option.splits if_splits)

lemma delegateD:
  assumes "delegate w g s = Some s'"
  shows "\<exists>c. pc s w = W_relock c \<and> pc s g = S_select \<and> s' = goto g S_lower (goto w (W_Llock c) s)"
  using assms by (auto simp: delegate_def split: pc.splits option.splits if_splits)

subsection \<open>Each invariant is kept by every event: the listing with \<open>mtx\<close>\<close>

lemma inv_L_step_mtx:
  assumes "inv_L s" and "event_mtx e s = Some s'"
  shows "inv_L s'"
proof (cases e)
  case (Tau t)
  note assms
  moreover have "holds_L (pc s t) \<longrightarrow> L s = Some t" using assms by (simp add: inv_L_def)
  ultimately show ?thesis using Tau
    by (cases "pc s t") (auto simp: inv_L_def op_defs mtx_defs Let_def   split: if_splits sum.splits option.splits result.splits)
next
  case (Invoke t m)
  then show ?thesis using assms
    by (cases m) (auto simp: inv_L_def op_defs   split: if_splits pc.splits result.splits)
next
  case (WakeCh t)
  then have en: "t < nthreads s" and "wake_ch_mtx t s = Some s'"
    using assms by (auto split: if_splits)
  from wake_ch_mtxD[OF this(2)] obtain x r where "pc s t = W_select x (Some r)" and "can_recv r s"
    and "s' = goto t (W_relock None) (recv r s)"
    by blast
  moreover
  note assms
  moreover have "holds_L (pc s t) \<longrightarrow> L s = Some t" using assms by (simp add: inv_L_def)
  ultimately show ?thesis using en
    by (auto simp: inv_L_def goto_def recv_def can_recv_def   split: if_splits)
next
  case (WakeCtx t)
  then have en: "t < nthreads s" and "wake_ctx t s = Some s'"
    using assms by (auto split: if_splits)
  from wake_ctxD[OF this(2)] obtain x r c where "pc s t = W_select x r" and "ctx_err s x = Some c"
    and "s' = goto t (W_relock (Some c)) s"
    by blast
  moreover
  note assms
  moreover have "holds_L (pc s t) \<longrightarrow> L s = Some t" using assms by (simp add: inv_L_def)
  ultimately show ?thesis using en
    by (auto simp: inv_L_def goto_def   split: if_splits)
next
  case (Cancel k x)
  then show ?thesis using assms
    by (auto simp: inv_L_def op_defs split: if_splits)
next
  case (Acquire t)
  then show ?thesis using assms
    by (auto simp: inv_L_def op_defs   split: if_splits pc.splits result.splits)
next
  case (Release t)
  then show ?thesis using assms
    by (auto simp: inv_L_def op_defs   split: if_splits pc.splits result.splits)
next
  case (Recover t)
  then show ?thesis using assms
    by (auto simp: inv_L_def op_defs recover_def   split: if_splits pc.splits result.splits)
qed (use assms in auto)

lemma inv_owner_step_mtx:
  assumes "inv_owner s" and "event_mtx e s = Some s'"
  shows "inv_owner s'"
proof (cases e)
  case (Tau t)
  note assms
  moreover have "crit_mtx (pc s t) \<longrightarrow> mtx s = Some t" using assms by (simp add: inv_owner_def)
  ultimately show ?thesis using Tau
    by (cases "pc s t") (auto simp: inv_owner_def op_defs mtx_defs Let_def   split: if_splits sum.splits option.splits result.splits)
next
  case (Invoke t m)
  then show ?thesis using assms
    by (cases m) (auto simp: inv_owner_def op_defs   split: if_splits pc.splits result.splits)
next
  case (WakeCh t)
  then have en: "t < nthreads s" and "wake_ch_mtx t s = Some s'"
    using assms by (auto split: if_splits)
  from wake_ch_mtxD[OF this(2)] obtain x r where "pc s t = W_select x (Some r)" and "can_recv r s"
    and "s' = goto t (W_relock None) (recv r s)"
    by blast
  moreover
  note assms
  moreover have "crit_mtx (pc s t) \<longrightarrow> mtx s = Some t" using assms by (simp add: inv_owner_def)
  ultimately show ?thesis using en
    by (auto simp: inv_owner_def goto_def recv_def can_recv_def   split: if_splits)
next
  case (WakeCtx t)
  then have en: "t < nthreads s" and "wake_ctx t s = Some s'"
    using assms by (auto split: if_splits)
  from wake_ctxD[OF this(2)] obtain x r c where "pc s t = W_select x r" and "ctx_err s x = Some c"
    and "s' = goto t (W_relock (Some c)) s"
    by blast
  moreover
  note assms
  moreover have "crit_mtx (pc s t) \<longrightarrow> mtx s = Some t" using assms by (simp add: inv_owner_def)
  ultimately show ?thesis using en
    by (auto simp: inv_owner_def goto_def   split: if_splits)
next
  case (Cancel k x)
  then show ?thesis using assms
    by (auto simp: inv_owner_def op_defs split: if_splits)
next
  case (Acquire t)
  then show ?thesis using assms
    by (auto simp: inv_owner_def op_defs   split: if_splits pc.splits result.splits)
next
  case (Release t)
  then show ?thesis using assms
    by (auto simp: inv_owner_def op_defs   split: if_splits pc.splits result.splits)
next
  case (Recover t)
  then show ?thesis using assms
    by (auto simp: inv_owner_def op_defs recover_def   split: if_splits pc.splits result.splits)
qed (use assms in auto)

lemma inv_count_step_mtx:
  assumes "inv_count s" and "inv_owner s" and "inv_L s" and "event_mtx e s = Some s'"
  shows "inv_count s'"
proof (cases e)
  case (Tau t)
  note assms
  moreover have "crit_mtx (pc s t) \<longrightarrow> mtx s = Some t" using assms by (simp add: inv_owner_def)
  moreover have "holds_L (pc s t) \<longrightarrow> L s = Some t" using assms by (simp add: inv_L_def)
  ultimately show ?thesis using Tau
    by (cases "pc s t") (auto simp: inv_L_def inv_count_def inv_owner_def op_defs mtx_defs Let_def count_pc_upd  split: if_splits sum.splits option.splits result.splits)
next
  case (Invoke t m)
  then show ?thesis using assms
    by (cases m) (auto simp: inv_L_def inv_count_def inv_owner_def op_defs count_pc_upd  split: if_splits pc.splits result.splits)
next
  case (WakeCh t)
  then have en: "t < nthreads s" and "wake_ch_mtx t s = Some s'"
    using assms by (auto split: if_splits)
  from wake_ch_mtxD[OF this(2)] obtain x r where "pc s t = W_select x (Some r)" and "can_recv r s"
    and "s' = goto t (W_relock None) (recv r s)"
    by blast
  moreover
  note assms
  moreover have "crit_mtx (pc s t) \<longrightarrow> mtx s = Some t" using assms by (simp add: inv_owner_def)
  moreover have "holds_L (pc s t) \<longrightarrow> L s = Some t" using assms by (simp add: inv_L_def)
  ultimately show ?thesis using en
    by (auto simp: inv_L_def inv_count_def inv_owner_def goto_def recv_def can_recv_def count_pc_upd  split: if_splits)
next
  case (WakeCtx t)
  then have en: "t < nthreads s" and "wake_ctx t s = Some s'"
    using assms by (auto split: if_splits)
  from wake_ctxD[OF this(2)] obtain x r c where "pc s t = W_select x r" and "ctx_err s x = Some c"
    and "s' = goto t (W_relock (Some c)) s"
    by blast
  moreover
  note assms
  moreover have "crit_mtx (pc s t) \<longrightarrow> mtx s = Some t" using assms by (simp add: inv_owner_def)
  moreover have "holds_L (pc s t) \<longrightarrow> L s = Some t" using assms by (simp add: inv_L_def)
  ultimately show ?thesis using en
    by (auto simp: inv_L_def inv_count_def inv_owner_def goto_def count_pc_upd  split: if_splits)
next
  case (Cancel k x)
  then show ?thesis using assms
    by (auto simp: inv_L_def inv_count_def inv_owner_def op_defs split: if_splits)
next
  case (Acquire t)
  then show ?thesis using assms
    by (auto simp: inv_L_def inv_count_def inv_owner_def op_defs count_pc_upd  split: if_splits pc.splits result.splits)
next
  case (Release t)
  then show ?thesis using assms
    by (auto simp: inv_L_def inv_count_def inv_owner_def op_defs count_pc_upd  split: if_splits pc.splits result.splits)
next
  case (Recover t)
  then show ?thesis using assms
    by (auto simp: inv_L_def inv_count_def inv_owner_def op_defs recover_def count_pc_upd  split: if_splits pc.splits result.splits)
qed (use assms in auto)

lemma inv_checker_step_mtx:
  assumes "inv_checker s" and "event_mtx e s = Some s'"
  shows "inv_checker s'"
proof (cases e)
  case (Tau t)
  note assms
  moreover note TrueI
  ultimately show ?thesis using Tau
    by (cases "pc s t") (auto simp: inv_checker_def op_defs mtx_defs Let_def check_def CompareAndSwapUintptr_def  split: if_splits sum.splits option.splits result.splits)
next
  case (Invoke t m)
  then show ?thesis using assms
    by (cases m) (auto simp: inv_checker_def op_defs check_def CompareAndSwapUintptr_def  split: if_splits pc.splits result.splits)
next
  case (WakeCh t)
  then have en: "t < nthreads s" and "wake_ch_mtx t s = Some s'"
    using assms by (auto split: if_splits)
  from wake_ch_mtxD[OF this(2)] obtain x r where "pc s t = W_select x (Some r)" and "can_recv r s"
    and "s' = goto t (W_relock None) (recv r s)"
    by blast
  moreover
  note assms
  moreover note TrueI
  ultimately show ?thesis using en
    by (auto simp: inv_checker_def goto_def recv_def can_recv_def check_def CompareAndSwapUintptr_def  split: if_splits)
next
  case (WakeCtx t)
  then have en: "t < nthreads s" and "wake_ctx t s = Some s'"
    using assms by (auto split: if_splits)
  from wake_ctxD[OF this(2)] obtain x r c where "pc s t = W_select x r" and "ctx_err s x = Some c"
    and "s' = goto t (W_relock (Some c)) s"
    by blast
  moreover
  note assms
  moreover note TrueI
  ultimately show ?thesis using en
    by (auto simp: inv_checker_def goto_def check_def CompareAndSwapUintptr_def  split: if_splits)
next
  case (Cancel k x)
  then show ?thesis using assms
    by (auto simp: inv_checker_def op_defs split: if_splits)
next
  case (Acquire t)
  then show ?thesis using assms
    by (auto simp: inv_checker_def op_defs check_def CompareAndSwapUintptr_def  split: if_splits pc.splits result.splits)
next
  case (Release t)
  then show ?thesis using assms
    by (auto simp: inv_checker_def op_defs check_def CompareAndSwapUintptr_def  split: if_splits pc.splits result.splits)
next
  case (Recover t)
  then show ?thesis using assms
    by (auto simp: inv_checker_def op_defs recover_def check_def CompareAndSwapUintptr_def  split: if_splits pc.splits result.splits)
qed (use assms in auto)

lemma inv_nil_step_mtx:
  assumes "inv_nil s" and "event_mtx e s = Some s'"
  shows "inv_nil s'"
proof (cases e)
  case (Tau t)
  note assms
  moreover note TrueI
  ultimately show ?thesis using Tau
    by (cases "pc s t") (auto simp: inv_nil_def op_defs mtx_defs Let_def   split: if_splits sum.splits option.splits result.splits)
next
  case (Invoke t m)
  then show ?thesis using assms
    by (cases m) (auto simp: inv_nil_def op_defs   split: if_splits pc.splits result.splits)
next
  case (WakeCh t)
  then have en: "t < nthreads s" and "wake_ch_mtx t s = Some s'"
    using assms by (auto split: if_splits)
  from wake_ch_mtxD[OF this(2)] obtain x r where "pc s t = W_select x (Some r)" and "can_recv r s"
    and "s' = goto t (W_relock None) (recv r s)"
    by blast
  moreover
  note assms
  moreover note TrueI
  ultimately show ?thesis using en
    by (auto simp: inv_nil_def goto_def recv_def can_recv_def   split: if_splits)
next
  case (WakeCtx t)
  then have en: "t < nthreads s" and "wake_ctx t s = Some s'"
    using assms by (auto split: if_splits)
  from wake_ctxD[OF this(2)] obtain x r c where "pc s t = W_select x r" and "ctx_err s x = Some c"
    and "s' = goto t (W_relock (Some c)) s"
    by blast
  moreover
  note assms
  moreover note TrueI
  ultimately show ?thesis using en
    by (auto simp: inv_nil_def goto_def   split: if_splits)
next
  case (Cancel k x)
  then show ?thesis using assms
    by (auto simp: inv_nil_def op_defs split: if_splits)
next
  case (Acquire t)
  then show ?thesis using assms
    by (auto simp: inv_nil_def op_defs   split: if_splits pc.splits result.splits)
next
  case (Release t)
  then show ?thesis using assms
    by (auto simp: inv_nil_def op_defs   split: if_splits pc.splits result.splits)
next
  case (Recover t)
  then show ?thesis using assms
    by (auto simp: inv_nil_def op_defs recover_def   split: if_splits pc.splits result.splits)
qed (use assms in auto)

lemma inv_cur_step_mtx:
  assumes "inv_cur s" and "event_mtx e s = Some s'"
  shows "inv_cur s'"
proof (cases e)
  case (Tau t)
  note assms
  moreover note TrueI
  ultimately show ?thesis using Tau
    by (cases "pc s t") (auto simp: inv_cur_def op_defs mtx_defs Let_def   split: if_splits sum.splits option.splits result.splits)
next
  case (Invoke t m)
  then show ?thesis using assms
    by (cases m) (auto simp: inv_cur_def op_defs   split: if_splits pc.splits result.splits)
next
  case (WakeCh t)
  then have en: "t < nthreads s" and "wake_ch_mtx t s = Some s'"
    using assms by (auto split: if_splits)
  from wake_ch_mtxD[OF this(2)] obtain x r where "pc s t = W_select x (Some r)" and "can_recv r s"
    and "s' = goto t (W_relock None) (recv r s)"
    by blast
  moreover
  note assms
  moreover note TrueI
  ultimately show ?thesis using en
    by (auto simp: inv_cur_def goto_def recv_def can_recv_def   split: if_splits)
next
  case (WakeCtx t)
  then have en: "t < nthreads s" and "wake_ctx t s = Some s'"
    using assms by (auto split: if_splits)
  from wake_ctxD[OF this(2)] obtain x r c where "pc s t = W_select x r" and "ctx_err s x = Some c"
    and "s' = goto t (W_relock (Some c)) s"
    by blast
  moreover
  note assms
  moreover note TrueI
  ultimately show ?thesis using en
    by (auto simp: inv_cur_def goto_def   split: if_splits)
next
  case (Cancel k x)
  then show ?thesis using assms
    by (auto simp: inv_cur_def op_defs split: if_splits)
next
  case (Acquire t)
  then show ?thesis using assms
    by (auto simp: inv_cur_def op_defs   split: if_splits pc.splits result.splits)
next
  case (Release t)
  then show ?thesis using assms
    by (auto simp: inv_cur_def op_defs   split: if_splits pc.splits result.splits)
next
  case (Recover t)
  then show ?thesis using assms
    by (auto simp: inv_cur_def op_defs recover_def   split: if_splits pc.splits result.splits)
qed (use assms in auto)

lemma inv_cap_step_mtx:
  assumes "inv_cap s" and "inv_cur s" and "event_mtx e s = Some s'"
  shows "inv_cap s'"
proof (cases e)
  case (Tau t)
  note assms
  moreover note TrueI
  ultimately show ?thesis using Tau
    by (cases "pc s t") (auto simp: inv_cap_def inv_cur_def op_defs mtx_defs Let_def   split: if_splits sum.splits option.splits result.splits)
next
  case (Invoke t m)
  then show ?thesis using assms
    by (cases m) (auto simp: inv_cap_def inv_cur_def op_defs   split: if_splits pc.splits result.splits)
next
  case (WakeCh t)
  then have en: "t < nthreads s" and "wake_ch_mtx t s = Some s'"
    using assms by (auto split: if_splits)
  from wake_ch_mtxD[OF this(2)] obtain x r where "pc s t = W_select x (Some r)" and "can_recv r s"
    and "s' = goto t (W_relock None) (recv r s)"
    by blast
  moreover
  note assms
  moreover note TrueI
  ultimately show ?thesis using en
    by (auto simp: inv_cap_def inv_cur_def goto_def recv_def can_recv_def   split: if_splits)
next
  case (WakeCtx t)
  then have en: "t < nthreads s" and "wake_ctx t s = Some s'"
    using assms by (auto split: if_splits)
  from wake_ctxD[OF this(2)] obtain x r c where "pc s t = W_select x r" and "ctx_err s x = Some c"
    and "s' = goto t (W_relock (Some c)) s"
    by blast
  moreover
  note assms
  moreover note TrueI
  ultimately show ?thesis using en
    by (auto simp: inv_cap_def inv_cur_def goto_def   split: if_splits)
next
  case (Cancel k x)
  then show ?thesis using assms
    by (auto simp: inv_cap_def inv_cur_def op_defs split: if_splits)
next
  case (Acquire t)
  then show ?thesis using assms
    by (auto simp: inv_cap_def inv_cur_def op_defs   split: if_splits pc.splits result.splits)
next
  case (Release t)
  then show ?thesis using assms
    by (auto simp: inv_cap_def inv_cur_def op_defs   split: if_splits pc.splits result.splits)
next
  case (Recover t)
  then show ?thesis using assms
    by (auto simp: inv_cap_def inv_cur_def op_defs recover_def   split: if_splits pc.splits result.splits)
qed (use assms in auto)

lemma inv_capt_step_mtx:
  assumes "inv_capt s" and "inv_cur s" and "event_mtx e s = Some s'"
  shows "inv_capt s'"
proof (cases e)
  case (Tau t)
  note assms
  moreover have "\<forall>r. captured (pc s t) = Some r \<longrightarrow> r < nchans s" using assms by (simp add: inv_capt_def)
  ultimately show ?thesis using Tau
    by (cases "pc s t") (auto simp: inv_capt_def inv_cur_def op_defs mtx_defs Let_def   split: if_splits sum.splits option.splits result.splits; blast intro: less_SucI)+
next
  case (Invoke t m)
  then show ?thesis using assms
    by (cases m) (auto simp: inv_capt_def inv_cur_def op_defs   split: if_splits pc.splits result.splits)
next
  case (WakeCh t)
  then have en: "t < nthreads s" and "wake_ch_mtx t s = Some s'"
    using assms by (auto split: if_splits)
  from wake_ch_mtxD[OF this(2)] obtain x r where "pc s t = W_select x (Some r)" and "can_recv r s"
    and "s' = goto t (W_relock None) (recv r s)"
    by blast
  moreover
  note assms
  moreover have "\<forall>r. captured (pc s t) = Some r \<longrightarrow> r < nchans s" using assms by (simp add: inv_capt_def)
  ultimately show ?thesis using en
    by (auto simp: inv_capt_def inv_cur_def goto_def recv_def can_recv_def   split: if_splits; blast intro: less_SucI)+
next
  case (WakeCtx t)
  then have en: "t < nthreads s" and "wake_ctx t s = Some s'"
    using assms by (auto split: if_splits)
  from wake_ctxD[OF this(2)] obtain x r c where "pc s t = W_select x r" and "ctx_err s x = Some c"
    and "s' = goto t (W_relock (Some c)) s"
    by blast
  moreover
  note assms
  moreover have "\<forall>r. captured (pc s t) = Some r \<longrightarrow> r < nchans s" using assms by (simp add: inv_capt_def)
  ultimately show ?thesis using en
    by (auto simp: inv_capt_def inv_cur_def goto_def   split: if_splits; blast intro: less_SucI)+
next
  case (Cancel k x)
  then show ?thesis using assms
    by (auto simp: inv_capt_def inv_cur_def op_defs split: if_splits)
next
  case (Acquire t)
  then show ?thesis using assms
    by (auto simp: inv_capt_def inv_cur_def op_defs   split: if_splits pc.splits result.splits)
next
  case (Release t)
  then show ?thesis using assms
    by (auto simp: inv_capt_def inv_cur_def op_defs   split: if_splits pc.splits result.splits)
next
  case (Recover t)
  then show ?thesis using assms
    by (auto simp: inv_capt_def inv_cur_def op_defs recover_def   split: if_splits pc.splits result.splits)
qed (use assms in auto)

lemma inv_token_step_mtx:
  assumes "inv_token s" and "inv_cap s" and "inv_cur s" and "event_mtx e s = Some s'"
  shows "inv_token s'"
proof (cases e)
  case (Tau t)
  note assms
  moreover note TrueI
  ultimately show ?thesis using Tau
    by (cases "pc s t") (auto simp: inv_cap_def inv_cur_def inv_token_def op_defs mtx_defs Let_def   split: if_splits sum.splits option.splits result.splits)
next
  case (Invoke t m)
  then show ?thesis using assms
    by (cases m) (auto simp: inv_cap_def inv_cur_def inv_token_def op_defs   split: if_splits pc.splits result.splits)
next
  case (WakeCh t)
  then have en: "t < nthreads s" and "wake_ch_mtx t s = Some s'"
    using assms by (auto split: if_splits)
  from wake_ch_mtxD[OF this(2)] obtain x r where "pc s t = W_select x (Some r)" and "can_recv r s"
    and "s' = goto t (W_relock None) (recv r s)"
    by blast
  moreover
  note assms
  moreover note TrueI
  ultimately show ?thesis using en
    by (auto simp: inv_cap_def inv_cur_def inv_token_def goto_def recv_def can_recv_def   split: if_splits)
next
  case (WakeCtx t)
  then have en: "t < nthreads s" and "wake_ctx t s = Some s'"
    using assms by (auto split: if_splits)
  from wake_ctxD[OF this(2)] obtain x r c where "pc s t = W_select x r" and "ctx_err s x = Some c"
    and "s' = goto t (W_relock (Some c)) s"
    by blast
  moreover
  note assms
  moreover note TrueI
  ultimately show ?thesis using en
    by (auto simp: inv_cap_def inv_cur_def inv_token_def goto_def   split: if_splits)
next
  case (Cancel k x)
  then show ?thesis using assms
    by (auto simp: inv_cap_def inv_cur_def inv_token_def op_defs split: if_splits)
next
  case (Acquire t)
  then show ?thesis using assms
    by (auto simp: inv_cap_def inv_cur_def inv_token_def op_defs   split: if_splits pc.splits result.splits)
next
  case (Release t)
  then show ?thesis using assms
    by (auto simp: inv_cap_def inv_cur_def inv_token_def op_defs   split: if_splits pc.splits result.splits)
next
  case (Recover t)
  then show ?thesis using assms
    by (auto simp: inv_cap_def inv_cur_def inv_token_def op_defs recover_def   split: if_splits pc.splits result.splits)
qed (use assms in auto)

lemma inv_nopanic_step_mtx:
  assumes "inv_nopanic s" and "inv_owner s" and "inv_L s" and "inv_checker s" and "inv_cur s" and "inv_nil s" and "event_mtx e s = Some s'"
  shows "inv_nopanic s'"
proof (cases e)
  case (Tau t)
  note assms
  moreover have "crit_mtx (pc s t) \<longrightarrow> mtx s = Some t" using assms by (simp add: inv_owner_def)
  moreover have "holds_L (pc s t) \<longrightarrow> L s = Some t" using assms by (simp add: inv_L_def)
  ultimately show ?thesis using Tau
    by (cases "pc s t") (auto simp: inv_L_def inv_checker_def inv_cur_def inv_nil_def inv_nopanic_def inv_owner_def op_defs mtx_defs Let_def check_def CompareAndSwapUintptr_def  split: if_splits sum.splits option.splits result.splits)
next
  case (Invoke t m)
  then show ?thesis using assms
    by (cases m) (auto simp: inv_L_def inv_checker_def inv_cur_def inv_nil_def inv_nopanic_def inv_owner_def op_defs check_def CompareAndSwapUintptr_def  split: if_splits pc.splits result.splits)
next
  case (WakeCh t)
  then have en: "t < nthreads s" and "wake_ch_mtx t s = Some s'"
    using assms by (auto split: if_splits)
  from wake_ch_mtxD[OF this(2)] obtain x r where "pc s t = W_select x (Some r)" and "can_recv r s"
    and "s' = goto t (W_relock None) (recv r s)"
    by blast
  moreover
  note assms
  moreover have "crit_mtx (pc s t) \<longrightarrow> mtx s = Some t" using assms by (simp add: inv_owner_def)
  moreover have "holds_L (pc s t) \<longrightarrow> L s = Some t" using assms by (simp add: inv_L_def)
  ultimately show ?thesis using en
    by (auto simp: inv_L_def inv_checker_def inv_cur_def inv_nil_def inv_nopanic_def inv_owner_def goto_def recv_def can_recv_def check_def CompareAndSwapUintptr_def  split: if_splits)
next
  case (WakeCtx t)
  then have en: "t < nthreads s" and "wake_ctx t s = Some s'"
    using assms by (auto split: if_splits)
  from wake_ctxD[OF this(2)] obtain x r c where "pc s t = W_select x r" and "ctx_err s x = Some c"
    and "s' = goto t (W_relock (Some c)) s"
    by blast
  moreover
  note assms
  moreover have "crit_mtx (pc s t) \<longrightarrow> mtx s = Some t" using assms by (simp add: inv_owner_def)
  moreover have "holds_L (pc s t) \<longrightarrow> L s = Some t" using assms by (simp add: inv_L_def)
  ultimately show ?thesis using en
    by (auto simp: inv_L_def inv_checker_def inv_cur_def inv_nil_def inv_nopanic_def inv_owner_def goto_def check_def CompareAndSwapUintptr_def  split: if_splits)
next
  case (Cancel k x)
  then show ?thesis using assms
    by (auto simp: inv_L_def inv_checker_def inv_cur_def inv_nil_def inv_nopanic_def inv_owner_def op_defs split: if_splits)
next
  case (Acquire t)
  then show ?thesis using assms
    by (auto simp: inv_L_def inv_checker_def inv_cur_def inv_nil_def inv_nopanic_def inv_owner_def op_defs check_def CompareAndSwapUintptr_def  split: if_splits pc.splits result.splits)
next
  case (Release t)
  then show ?thesis using assms
    by (auto simp: inv_L_def inv_checker_def inv_cur_def inv_nil_def inv_nopanic_def inv_owner_def op_defs check_def CompareAndSwapUintptr_def  split: if_splits pc.splits result.splits)
next
  case (Recover t)
  then show ?thesis using assms
    by (auto simp: inv_L_def inv_checker_def inv_cur_def inv_nil_def inv_nopanic_def inv_owner_def op_defs recover_def check_def CompareAndSwapUintptr_def  split: if_splits pc.splits result.splits)
qed (use assms in auto)

lemma inv_range_step_mtx:
  assumes "inv_range s" and "event_mtx e s = Some s'"
  shows "inv_range s'"
proof (cases e)
  case (Tau t)
  note assms
  moreover note TrueI
  ultimately show ?thesis using Tau
    by (cases "pc s t") (auto simp: inv_range_def op_defs mtx_defs Let_def   split: if_splits sum.splits option.splits result.splits)
next
  case (Invoke t m)
  then show ?thesis using assms
    by (cases m) (auto simp: inv_range_def op_defs   split: if_splits pc.splits result.splits)
next
  case (WakeCh t)
  then have en: "t < nthreads s" and "wake_ch_mtx t s = Some s'"
    using assms by (auto split: if_splits)
  from wake_ch_mtxD[OF this(2)] obtain x r where "pc s t = W_select x (Some r)" and "can_recv r s"
    and "s' = goto t (W_relock None) (recv r s)"
    by blast
  moreover
  note assms
  moreover note TrueI
  ultimately show ?thesis using en
    by (auto simp: inv_range_def goto_def recv_def can_recv_def   split: if_splits)
next
  case (WakeCtx t)
  then have en: "t < nthreads s" and "wake_ctx t s = Some s'"
    using assms by (auto split: if_splits)
  from wake_ctxD[OF this(2)] obtain x r c where "pc s t = W_select x r" and "ctx_err s x = Some c"
    and "s' = goto t (W_relock (Some c)) s"
    by blast
  moreover
  note assms
  moreover note TrueI
  ultimately show ?thesis using en
    by (auto simp: inv_range_def goto_def   split: if_splits)
next
  case (Cancel k x)
  then show ?thesis using assms
    by (auto simp: inv_range_def op_defs split: if_splits)
next
  case (Acquire t)
  then show ?thesis using assms
    by (auto simp: inv_range_def op_defs   split: if_splits pc.splits result.splits)
next
  case (Release t)
  then show ?thesis using assms
    by (auto simp: inv_range_def op_defs   split: if_splits pc.splits result.splits)
next
  case (Recover t)
  then show ?thesis using assms
    by (auto simp: inv_range_def op_defs recover_def   split: if_splits pc.splits result.splits)
qed (use assms in auto)

subsection \<open>Each invariant is kept by every event: the listing with \<open>mtxCh\<close>\<close>

lemma inv_L_step_mtxCh:
  assumes "inv_L s" and "event_mtxCh e s = Some s'"
  shows "inv_L s'"
proof (cases e)
  case (Tau t)
  note assms
  moreover have "holds_L (pc s t) \<longrightarrow> L s = Some t" using assms by (simp add: inv_L_def)
  ultimately show ?thesis using Tau
    by (cases "pc s t") (auto simp: inv_L_def op_defs mtxCh_defs Let_def   split: if_splits sum.splits option.splits result.splits)
next
  case (Invoke t m)
  then show ?thesis using assms
    by (cases m) (auto simp: inv_L_def op_defs   split: if_splits pc.splits result.splits)
next
  case (WakeCh t)
  then have en: "t < nthreads s" and "wake_ch_mtxCh t s = Some s'"
    using assms by (auto split: if_splits)
  from wake_ch_mtxChD[OF this(2)] obtain x r where "pc s t = W_select x (Some r)"
    and "0 < buf (chans s r) \<and> s' = goto t (W_dec None) (recv r s) \<or>
         buf (chans s r) = 0 \<and> closed (chans s r) \<and> s' = goto t (W_relock None) s"
    by blast
  moreover
  note assms
  moreover have "holds_L (pc s t) \<longrightarrow> L s = Some t" using assms by (simp add: inv_L_def)
  ultimately show ?thesis using en
    by (auto simp: inv_L_def goto_def recv_def can_recv_def   split: if_splits)
next
  case (WakeCtx t)
  then have en: "t < nthreads s" and "wake_ctx t s = Some s'"
    using assms by (auto split: if_splits)
  from wake_ctxD[OF this(2)] obtain x r c where "pc s t = W_select x r" and "ctx_err s x = Some c"
    and "s' = goto t (W_relock (Some c)) s"
    by blast
  moreover
  note assms
  moreover have "holds_L (pc s t) \<longrightarrow> L s = Some t" using assms by (simp add: inv_L_def)
  ultimately show ?thesis using en
    by (auto simp: inv_L_def goto_def   split: if_splits)
next
  case (Cancel k x)
  then show ?thesis using assms
    by (auto simp: inv_L_def op_defs split: if_splits)
next
  case (Acquire t)
  then show ?thesis using assms
    by (auto simp: inv_L_def op_defs   split: if_splits pc.splits result.splits)
next
  case (Release t)
  then show ?thesis using assms
    by (auto simp: inv_L_def op_defs   split: if_splits pc.splits result.splits)
next
  case (Recover t)
  then show ?thesis using assms
    by (auto simp: inv_L_def op_defs recover_def   split: if_splits pc.splits result.splits)
next
  case (Handoff g w)
  then have en: "g < nthreads s" "w < nthreads s" "g \<noteq> w" and "handoff g w s = Some s'"
    using assms by (auto split: if_splits)
  from handoffD[OF this(4)] obtain x r where "pc s g = S_select" and "pc s w = W_select x (Some r)"
    and "ch s = Some r" and "\<not> closed (chans s r)"
    and "s' = goto w (W_dec None) (goto g (Returned Done) s)"
    by blast
  moreover
  note assms
  moreover have "holds_L (pc s g) \<longrightarrow> L s = Some g" using assms by (simp add: inv_L_def)
  moreover have "holds_L (pc s w) \<longrightarrow> L s = Some w" using assms by (simp add: inv_L_def)
  ultimately show ?thesis using en
    by (auto simp: inv_L_def goto_def   split: if_splits)
next
  case (Delegate w g)
  then have en: "g < nthreads s" "w < nthreads s" "g \<noteq> w" and "delegate w g s = Some s'"
    using assms by (auto split: if_splits)
  from delegateD[OF this(4)] obtain c where "pc s w = W_relock c" and "pc s g = S_select"
    and "s' = goto g S_lower (goto w (W_Llock c) s)"
    by blast
  moreover
  note assms
  moreover have "holds_L (pc s g) \<longrightarrow> L s = Some g" using assms by (simp add: inv_L_def)
  moreover have "holds_L (pc s w) \<longrightarrow> L s = Some w" using assms by (simp add: inv_L_def)
  ultimately show ?thesis using en
    by (auto simp: inv_L_def goto_def   split: if_splits)
qed

lemma inv_checker_step_mtxCh:
  assumes "inv_checker s" and "event_mtxCh e s = Some s'"
  shows "inv_checker s'"
proof (cases e)
  case (Tau t)
  note assms
  moreover note TrueI
  ultimately show ?thesis using Tau
    by (cases "pc s t") (auto simp: inv_checker_def op_defs mtxCh_defs Let_def check_def CompareAndSwapUintptr_def  split: if_splits sum.splits option.splits result.splits)
next
  case (Invoke t m)
  then show ?thesis using assms
    by (cases m) (auto simp: inv_checker_def op_defs check_def CompareAndSwapUintptr_def  split: if_splits pc.splits result.splits)
next
  case (WakeCh t)
  then have en: "t < nthreads s" and "wake_ch_mtxCh t s = Some s'"
    using assms by (auto split: if_splits)
  from wake_ch_mtxChD[OF this(2)] obtain x r where "pc s t = W_select x (Some r)"
    and "0 < buf (chans s r) \<and> s' = goto t (W_dec None) (recv r s) \<or>
         buf (chans s r) = 0 \<and> closed (chans s r) \<and> s' = goto t (W_relock None) s"
    by blast
  moreover
  note assms
  moreover note TrueI
  ultimately show ?thesis using en
    by (auto simp: inv_checker_def goto_def recv_def can_recv_def check_def CompareAndSwapUintptr_def  split: if_splits)
next
  case (WakeCtx t)
  then have en: "t < nthreads s" and "wake_ctx t s = Some s'"
    using assms by (auto split: if_splits)
  from wake_ctxD[OF this(2)] obtain x r c where "pc s t = W_select x r" and "ctx_err s x = Some c"
    and "s' = goto t (W_relock (Some c)) s"
    by blast
  moreover
  note assms
  moreover note TrueI
  ultimately show ?thesis using en
    by (auto simp: inv_checker_def goto_def check_def CompareAndSwapUintptr_def  split: if_splits)
next
  case (Cancel k x)
  then show ?thesis using assms
    by (auto simp: inv_checker_def op_defs split: if_splits)
next
  case (Acquire t)
  then show ?thesis using assms
    by (auto simp: inv_checker_def op_defs check_def CompareAndSwapUintptr_def  split: if_splits pc.splits result.splits)
next
  case (Release t)
  then show ?thesis using assms
    by (auto simp: inv_checker_def op_defs check_def CompareAndSwapUintptr_def  split: if_splits pc.splits result.splits)
next
  case (Recover t)
  then show ?thesis using assms
    by (auto simp: inv_checker_def op_defs recover_def check_def CompareAndSwapUintptr_def  split: if_splits pc.splits result.splits)
next
  case (Handoff g w)
  then have en: "g < nthreads s" "w < nthreads s" "g \<noteq> w" and "handoff g w s = Some s'"
    using assms by (auto split: if_splits)
  from handoffD[OF this(4)] obtain x r where "pc s g = S_select" and "pc s w = W_select x (Some r)"
    and "ch s = Some r" and "\<not> closed (chans s r)"
    and "s' = goto w (W_dec None) (goto g (Returned Done) s)"
    by blast
  moreover
  note assms
  moreover note TrueI
  ultimately show ?thesis using en
    by (auto simp: inv_checker_def goto_def check_def CompareAndSwapUintptr_def  split: if_splits)
next
  case (Delegate w g)
  then have en: "g < nthreads s" "w < nthreads s" "g \<noteq> w" and "delegate w g s = Some s'"
    using assms by (auto split: if_splits)
  from delegateD[OF this(4)] obtain c where "pc s w = W_relock c" and "pc s g = S_select"
    and "s' = goto g S_lower (goto w (W_Llock c) s)"
    by blast
  moreover
  note assms
  moreover note TrueI
  ultimately show ?thesis using en
    by (auto simp: inv_checker_def goto_def check_def CompareAndSwapUintptr_def  split: if_splits)
qed

lemma inv_curCh_step_mtxCh:
  assumes "inv_curCh s" and "event_mtxCh e s = Some s'"
  shows "inv_curCh s'"
proof (cases e)
  case (Tau t)
  note assms
  moreover note TrueI
  ultimately show ?thesis using Tau
    by (cases "pc s t") (auto simp: inv_curCh_def op_defs mtxCh_defs Let_def   split: if_splits sum.splits option.splits result.splits)
next
  case (Invoke t m)
  then show ?thesis using assms
    by (cases m) (auto simp: inv_curCh_def op_defs   split: if_splits pc.splits result.splits)
next
  case (WakeCh t)
  then have en: "t < nthreads s" and "wake_ch_mtxCh t s = Some s'"
    using assms by (auto split: if_splits)
  from wake_ch_mtxChD[OF this(2)] obtain x r where "pc s t = W_select x (Some r)"
    and "0 < buf (chans s r) \<and> s' = goto t (W_dec None) (recv r s) \<or>
         buf (chans s r) = 0 \<and> closed (chans s r) \<and> s' = goto t (W_relock None) s"
    by blast
  moreover
  note assms
  moreover note TrueI
  ultimately show ?thesis using en
    by (auto simp: inv_curCh_def goto_def recv_def can_recv_def   split: if_splits)
next
  case (WakeCtx t)
  then have en: "t < nthreads s" and "wake_ctx t s = Some s'"
    using assms by (auto split: if_splits)
  from wake_ctxD[OF this(2)] obtain x r c where "pc s t = W_select x r" and "ctx_err s x = Some c"
    and "s' = goto t (W_relock (Some c)) s"
    by blast
  moreover
  note assms
  moreover note TrueI
  ultimately show ?thesis using en
    by (auto simp: inv_curCh_def goto_def   split: if_splits)
next
  case (Cancel k x)
  then show ?thesis using assms
    by (auto simp: inv_curCh_def op_defs split: if_splits)
next
  case (Acquire t)
  then show ?thesis using assms
    by (auto simp: inv_curCh_def op_defs   split: if_splits pc.splits result.splits)
next
  case (Release t)
  then show ?thesis using assms
    by (auto simp: inv_curCh_def op_defs   split: if_splits pc.splits result.splits)
next
  case (Recover t)
  then show ?thesis using assms
    by (auto simp: inv_curCh_def op_defs recover_def   split: if_splits pc.splits result.splits)
next
  case (Handoff g w)
  then have en: "g < nthreads s" "w < nthreads s" "g \<noteq> w" and "handoff g w s = Some s'"
    using assms by (auto split: if_splits)
  from handoffD[OF this(4)] obtain x r where "pc s g = S_select" and "pc s w = W_select x (Some r)"
    and "ch s = Some r" and "\<not> closed (chans s r)"
    and "s' = goto w (W_dec None) (goto g (Returned Done) s)"
    by blast
  moreover
  note assms
  moreover note TrueI
  ultimately show ?thesis using en
    by (auto simp: inv_curCh_def goto_def   split: if_splits)
next
  case (Delegate w g)
  then have en: "g < nthreads s" "w < nthreads s" "g \<noteq> w" and "delegate w g s = Some s'"
    using assms by (auto split: if_splits)
  from delegateD[OF this(4)] obtain c where "pc s w = W_relock c" and "pc s g = S_select"
    and "s' = goto g S_lower (goto w (W_Llock c) s)"
    by blast
  moreover
  note assms
  moreover note TrueI
  ultimately show ?thesis using en
    by (auto simp: inv_curCh_def goto_def   split: if_splits)
qed

lemma inv_capCh_step_mtxCh:
  assumes "inv_capCh s" and "inv_curCh s" and "event_mtxCh e s = Some s'"
  shows "inv_capCh s'"
proof (cases e)
  case (Tau t)
  note assms
  moreover note TrueI
  ultimately show ?thesis using Tau
    by (cases "pc s t") (auto simp: inv_capCh_def inv_curCh_def op_defs mtxCh_defs Let_def   split: if_splits sum.splits option.splits result.splits)
next
  case (Invoke t m)
  then show ?thesis using assms
    by (cases m) (auto simp: inv_capCh_def inv_curCh_def op_defs   split: if_splits pc.splits result.splits)
next
  case (WakeCh t)
  then have en: "t < nthreads s" and "wake_ch_mtxCh t s = Some s'"
    using assms by (auto split: if_splits)
  from wake_ch_mtxChD[OF this(2)] obtain x r where "pc s t = W_select x (Some r)"
    and "0 < buf (chans s r) \<and> s' = goto t (W_dec None) (recv r s) \<or>
         buf (chans s r) = 0 \<and> closed (chans s r) \<and> s' = goto t (W_relock None) s"
    by blast
  moreover
  note assms
  moreover note TrueI
  ultimately show ?thesis using en
    by (auto simp: inv_capCh_def inv_curCh_def goto_def recv_def can_recv_def   split: if_splits)
next
  case (WakeCtx t)
  then have en: "t < nthreads s" and "wake_ctx t s = Some s'"
    using assms by (auto split: if_splits)
  from wake_ctxD[OF this(2)] obtain x r c where "pc s t = W_select x r" and "ctx_err s x = Some c"
    and "s' = goto t (W_relock (Some c)) s"
    by blast
  moreover
  note assms
  moreover note TrueI
  ultimately show ?thesis using en
    by (auto simp: inv_capCh_def inv_curCh_def goto_def   split: if_splits)
next
  case (Cancel k x)
  then show ?thesis using assms
    by (auto simp: inv_capCh_def inv_curCh_def op_defs split: if_splits)
next
  case (Acquire t)
  then show ?thesis using assms
    by (auto simp: inv_capCh_def inv_curCh_def op_defs   split: if_splits pc.splits result.splits)
next
  case (Release t)
  then show ?thesis using assms
    by (auto simp: inv_capCh_def inv_curCh_def op_defs   split: if_splits pc.splits result.splits)
next
  case (Recover t)
  then show ?thesis using assms
    by (auto simp: inv_capCh_def inv_curCh_def op_defs recover_def   split: if_splits pc.splits result.splits)
next
  case (Handoff g w)
  then have en: "g < nthreads s" "w < nthreads s" "g \<noteq> w" and "handoff g w s = Some s'"
    using assms by (auto split: if_splits)
  from handoffD[OF this(4)] obtain x r where "pc s g = S_select" and "pc s w = W_select x (Some r)"
    and "ch s = Some r" and "\<not> closed (chans s r)"
    and "s' = goto w (W_dec None) (goto g (Returned Done) s)"
    by blast
  moreover
  note assms
  moreover note TrueI
  ultimately show ?thesis using en
    by (auto simp: inv_capCh_def inv_curCh_def goto_def   split: if_splits)
next
  case (Delegate w g)
  then have en: "g < nthreads s" "w < nthreads s" "g \<noteq> w" and "delegate w g s = Some s'"
    using assms by (auto split: if_splits)
  from delegateD[OF this(4)] obtain c where "pc s w = W_relock c" and "pc s g = S_select"
    and "s' = goto g S_lower (goto w (W_Llock c) s)"
    by blast
  moreover
  note assms
  moreover note TrueI
  ultimately show ?thesis using en
    by (auto simp: inv_capCh_def inv_curCh_def goto_def   split: if_splits)
qed

lemma inv_captCh_step_mtxCh:
  assumes "inv_captCh s" and "inv_curCh s" and "event_mtxCh e s = Some s'"
  shows "inv_captCh s'"
proof (cases e)
  case (Tau t)
  note assms
  moreover have "\<forall>r. captured (pc s t) = Some r \<longrightarrow> r \<noteq> 0 \<and> r < nchans s" using assms by (simp add: inv_captCh_def)
  ultimately show ?thesis using Tau
    by (cases "pc s t") (auto simp: inv_captCh_def inv_curCh_def op_defs mtxCh_defs Let_def   split: if_splits sum.splits option.splits result.splits; blast intro: less_SucI)+
next
  case (Invoke t m)
  then show ?thesis using assms
    by (cases m) (auto simp: inv_captCh_def inv_curCh_def op_defs   split: if_splits pc.splits result.splits)
next
  case (WakeCh t)
  then have en: "t < nthreads s" and "wake_ch_mtxCh t s = Some s'"
    using assms by (auto split: if_splits)
  from wake_ch_mtxChD[OF this(2)] obtain x r where "pc s t = W_select x (Some r)"
    and "0 < buf (chans s r) \<and> s' = goto t (W_dec None) (recv r s) \<or>
         buf (chans s r) = 0 \<and> closed (chans s r) \<and> s' = goto t (W_relock None) s"
    by blast
  moreover
  note assms
  moreover have "\<forall>r. captured (pc s t) = Some r \<longrightarrow> r \<noteq> 0 \<and> r < nchans s" using assms by (simp add: inv_captCh_def)
  ultimately show ?thesis using en
    by (auto simp: inv_captCh_def inv_curCh_def goto_def recv_def can_recv_def   split: if_splits; blast intro: less_SucI)+
next
  case (WakeCtx t)
  then have en: "t < nthreads s" and "wake_ctx t s = Some s'"
    using assms by (auto split: if_splits)
  from wake_ctxD[OF this(2)] obtain x r c where "pc s t = W_select x r" and "ctx_err s x = Some c"
    and "s' = goto t (W_relock (Some c)) s"
    by blast
  moreover
  note assms
  moreover have "\<forall>r. captured (pc s t) = Some r \<longrightarrow> r \<noteq> 0 \<and> r < nchans s" using assms by (simp add: inv_captCh_def)
  ultimately show ?thesis using en
    by (auto simp: inv_captCh_def inv_curCh_def goto_def   split: if_splits; blast intro: less_SucI)+
next
  case (Cancel k x)
  then show ?thesis using assms
    by (auto simp: inv_captCh_def inv_curCh_def op_defs split: if_splits)
next
  case (Acquire t)
  then show ?thesis using assms
    by (auto simp: inv_captCh_def inv_curCh_def op_defs   split: if_splits pc.splits result.splits)
next
  case (Release t)
  then show ?thesis using assms
    by (auto simp: inv_captCh_def inv_curCh_def op_defs   split: if_splits pc.splits result.splits)
next
  case (Recover t)
  then show ?thesis using assms
    by (auto simp: inv_captCh_def inv_curCh_def op_defs recover_def   split: if_splits pc.splits result.splits)
next
  case (Handoff g w)
  then have en: "g < nthreads s" "w < nthreads s" "g \<noteq> w" and "handoff g w s = Some s'"
    using assms by (auto split: if_splits)
  from handoffD[OF this(4)] obtain x r where "pc s g = S_select" and "pc s w = W_select x (Some r)"
    and "ch s = Some r" and "\<not> closed (chans s r)"
    and "s' = goto w (W_dec None) (goto g (Returned Done) s)"
    by blast
  moreover
  note assms
  moreover have "\<forall>r. captured (pc s g) = Some r \<longrightarrow> r \<noteq> 0 \<and> r < nchans s" using assms by (simp add: inv_captCh_def)
  moreover have "\<forall>r. captured (pc s w) = Some r \<longrightarrow> r \<noteq> 0 \<and> r < nchans s" using assms by (simp add: inv_captCh_def)
  ultimately show ?thesis using en
    by (auto simp: inv_captCh_def inv_curCh_def goto_def   split: if_splits; blast intro: less_SucI)+
next
  case (Delegate w g)
  then have en: "g < nthreads s" "w < nthreads s" "g \<noteq> w" and "delegate w g s = Some s'"
    using assms by (auto split: if_splits)
  from delegateD[OF this(4)] obtain c where "pc s w = W_relock c" and "pc s g = S_select"
    and "s' = goto g S_lower (goto w (W_Llock c) s)"
    by blast
  moreover
  note assms
  moreover have "\<forall>r. captured (pc s g) = Some r \<longrightarrow> r \<noteq> 0 \<and> r < nchans s" using assms by (simp add: inv_captCh_def)
  moreover have "\<forall>r. captured (pc s w) = Some r \<longrightarrow> r \<noteq> 0 \<and> r < nchans s" using assms by (simp add: inv_captCh_def)
  ultimately show ?thesis using en
    by (auto simp: inv_captCh_def inv_curCh_def goto_def   split: if_splits; blast intro: less_SucI)+
qed

lemma inv_countCh_step_mtxCh:
  assumes "inv_countCh s" and "inv_L s" and "inv_curCh s" and "event_mtxCh e s = Some s'"
  shows "inv_countCh s'"
proof (cases e)
  case (Tau t)
  note assms
  moreover have "holds_L (pc s t) \<longrightarrow> L s = Some t" using assms by (simp add: inv_L_def)
  ultimately show ?thesis using Tau
    by (cases "pc s t") (auto simp: inv_L_def inv_countCh_def inv_curCh_def op_defs mtxCh_defs Let_def count_pc_upd  split: if_splits sum.splits option.splits result.splits)
next
  case (Invoke t m)
  then show ?thesis using assms
    by (cases m) (auto simp: inv_L_def inv_countCh_def inv_curCh_def op_defs count_pc_upd  split: if_splits pc.splits result.splits)
next
  case (WakeCh t)
  then have en: "t < nthreads s" and "wake_ch_mtxCh t s = Some s'"
    using assms by (auto split: if_splits)
  from wake_ch_mtxChD[OF this(2)] obtain x r where "pc s t = W_select x (Some r)"
    and "0 < buf (chans s r) \<and> s' = goto t (W_dec None) (recv r s) \<or>
         buf (chans s r) = 0 \<and> closed (chans s r) \<and> s' = goto t (W_relock None) s"
    by blast
  moreover
  note assms
  moreover have "holds_L (pc s t) \<longrightarrow> L s = Some t" using assms by (simp add: inv_L_def)
  ultimately show ?thesis using en
    by (auto simp: inv_L_def inv_countCh_def inv_curCh_def goto_def recv_def can_recv_def count_pc_upd  split: if_splits)
next
  case (WakeCtx t)
  then have en: "t < nthreads s" and "wake_ctx t s = Some s'"
    using assms by (auto split: if_splits)
  from wake_ctxD[OF this(2)] obtain x r c where "pc s t = W_select x r" and "ctx_err s x = Some c"
    and "s' = goto t (W_relock (Some c)) s"
    by blast
  moreover
  note assms
  moreover have "holds_L (pc s t) \<longrightarrow> L s = Some t" using assms by (simp add: inv_L_def)
  ultimately show ?thesis using en
    by (auto simp: inv_L_def inv_countCh_def inv_curCh_def goto_def count_pc_upd  split: if_splits)
next
  case (Cancel k x)
  then show ?thesis using assms
    by (auto simp: inv_L_def inv_countCh_def inv_curCh_def op_defs split: if_splits)
next
  case (Acquire t)
  then show ?thesis using assms
    by (auto simp: inv_L_def inv_countCh_def inv_curCh_def op_defs count_pc_upd  split: if_splits pc.splits result.splits)
next
  case (Release t)
  then show ?thesis using assms
    by (auto simp: inv_L_def inv_countCh_def inv_curCh_def op_defs count_pc_upd  split: if_splits pc.splits result.splits)
next
  case (Recover t)
  then show ?thesis using assms
    by (auto simp: inv_L_def inv_countCh_def inv_curCh_def op_defs recover_def count_pc_upd  split: if_splits pc.splits result.splits)
next
  case (Handoff g w)
  then have en: "g < nthreads s" "w < nthreads s" "g \<noteq> w" and "handoff g w s = Some s'"
    using assms by (auto split: if_splits)
  from handoffD[OF this(4)] obtain x r where "pc s g = S_select" and "pc s w = W_select x (Some r)"
    and "ch s = Some r" and "\<not> closed (chans s r)"
    and "s' = goto w (W_dec None) (goto g (Returned Done) s)"
    by blast
  moreover
  note assms
  moreover have "holds_L (pc s g) \<longrightarrow> L s = Some g" using assms by (simp add: inv_L_def)
  moreover have "holds_L (pc s w) \<longrightarrow> L s = Some w" using assms by (simp add: inv_L_def)
  ultimately show ?thesis using en
    by (auto simp: inv_L_def inv_countCh_def inv_curCh_def goto_def count_pc_upd  split: if_splits)
next
  case (Delegate w g)
  then have en: "g < nthreads s" "w < nthreads s" "g \<noteq> w" and "delegate w g s = Some s'"
    using assms by (auto split: if_splits)
  from delegateD[OF this(4)] obtain c where "pc s w = W_relock c" and "pc s g = S_select"
    and "s' = goto g S_lower (goto w (W_Llock c) s)"
    by blast
  moreover
  note assms
  moreover have "holds_L (pc s g) \<longrightarrow> L s = Some g" using assms by (simp add: inv_L_def)
  moreover have "holds_L (pc s w) \<longrightarrow> L s = Some w" using assms by (simp add: inv_L_def)
  ultimately show ?thesis using en
    by (auto simp: inv_L_def inv_countCh_def inv_curCh_def goto_def count_pc_upd  split: if_splits)
qed

lemma inv_lockCh_step_mtxCh:
  assumes "inv_lockCh s" and "inv_L s" and "inv_curCh s" and "inv_capCh s" and "inv_captCh s" and "inv_checker s" and "event_mtxCh e s = Some s'"
  shows "inv_lockCh s'"
proof (cases e)
  case (Tau t)
  note assms
  moreover have "holds_L (pc s t) \<longrightarrow> L s = Some t" using assms by (simp add: inv_L_def)
  moreover have "\<forall>r. captured (pc s t) = Some r \<longrightarrow> r \<noteq> 0 \<and> r < nchans s" using assms by (simp add: inv_captCh_def)
  ultimately show ?thesis using Tau
    by (cases "pc s t") (auto simp: inv_L_def inv_capCh_def inv_captCh_def inv_checker_def inv_curCh_def inv_lockCh_def op_defs mtxCh_defs Let_def count_pc_upd check_def CompareAndSwapUintptr_def simp del: of_nat_eq_iff split: if_splits sum.splits option.splits result.splits)
next
  case (Invoke t m)
  then show ?thesis using assms
    by (cases m) (auto simp: inv_L_def inv_capCh_def inv_captCh_def inv_checker_def inv_curCh_def inv_lockCh_def op_defs count_pc_upd check_def CompareAndSwapUintptr_def simp del: of_nat_eq_iff split: if_splits pc.splits result.splits)
next
  case (WakeCh t)
  then have en: "t < nthreads s" and "wake_ch_mtxCh t s = Some s'"
    using assms by (auto split: if_splits)
  from wake_ch_mtxChD[OF this(2)] obtain x r where "pc s t = W_select x (Some r)"
    and "0 < buf (chans s r) \<and> s' = goto t (W_dec None) (recv r s) \<or>
         buf (chans s r) = 0 \<and> closed (chans s r) \<and> s' = goto t (W_relock None) s"
    by blast
  moreover
  note assms
  moreover have "holds_L (pc s t) \<longrightarrow> L s = Some t" using assms by (simp add: inv_L_def)
  moreover have "\<forall>r. captured (pc s t) = Some r \<longrightarrow> r \<noteq> 0 \<and> r < nchans s" using assms by (simp add: inv_captCh_def)
  ultimately show ?thesis using en
    by (auto simp: inv_L_def inv_capCh_def inv_captCh_def inv_checker_def inv_curCh_def inv_lockCh_def goto_def recv_def can_recv_def count_pc_upd check_def CompareAndSwapUintptr_def simp del: of_nat_eq_iff split: if_splits)
next
  case (WakeCtx t)
  then have en: "t < nthreads s" and "wake_ctx t s = Some s'"
    using assms by (auto split: if_splits)
  from wake_ctxD[OF this(2)] obtain x r c where "pc s t = W_select x r" and "ctx_err s x = Some c"
    and "s' = goto t (W_relock (Some c)) s"
    by blast
  moreover
  note assms
  moreover have "holds_L (pc s t) \<longrightarrow> L s = Some t" using assms by (simp add: inv_L_def)
  moreover have "\<forall>r. captured (pc s t) = Some r \<longrightarrow> r \<noteq> 0 \<and> r < nchans s" using assms by (simp add: inv_captCh_def)
  ultimately show ?thesis using en
    by (auto simp: inv_L_def inv_capCh_def inv_captCh_def inv_checker_def inv_curCh_def inv_lockCh_def goto_def count_pc_upd check_def CompareAndSwapUintptr_def simp del: of_nat_eq_iff split: if_splits)
next
  case (Cancel k x)
  then show ?thesis using assms
    by (auto simp: inv_L_def inv_capCh_def inv_captCh_def inv_checker_def inv_curCh_def inv_lockCh_def op_defs split: if_splits)
next
  case (Acquire t)
  then show ?thesis using assms
    by (auto simp: inv_L_def inv_capCh_def inv_captCh_def inv_checker_def inv_curCh_def inv_lockCh_def op_defs count_pc_upd check_def CompareAndSwapUintptr_def simp del: of_nat_eq_iff split: if_splits pc.splits result.splits)
next
  case (Release t)
  then show ?thesis using assms
    by (auto simp: inv_L_def inv_capCh_def inv_captCh_def inv_checker_def inv_curCh_def inv_lockCh_def op_defs count_pc_upd check_def CompareAndSwapUintptr_def simp del: of_nat_eq_iff split: if_splits pc.splits result.splits)
next
  case (Recover t)
  then show ?thesis using assms
    by (auto simp: inv_L_def inv_capCh_def inv_captCh_def inv_checker_def inv_curCh_def inv_lockCh_def op_defs recover_def count_pc_upd check_def CompareAndSwapUintptr_def simp del: of_nat_eq_iff split: if_splits pc.splits result.splits)
next
  case (Handoff g w)
  then have en: "g < nthreads s" "w < nthreads s" "g \<noteq> w" and "handoff g w s = Some s'"
    using assms by (auto split: if_splits)
  from handoffD[OF this(4)] obtain x r where "pc s g = S_select" and "pc s w = W_select x (Some r)"
    and "ch s = Some r" and "\<not> closed (chans s r)"
    and "s' = goto w (W_dec None) (goto g (Returned Done) s)"
    by blast
  moreover
  note assms
  moreover have "holds_L (pc s g) \<longrightarrow> L s = Some g" using assms by (simp add: inv_L_def)
  moreover have "\<forall>r. captured (pc s g) = Some r \<longrightarrow> r \<noteq> 0 \<and> r < nchans s" using assms by (simp add: inv_captCh_def)
  moreover have "holds_L (pc s w) \<longrightarrow> L s = Some w" using assms by (simp add: inv_L_def)
  moreover have "\<forall>r. captured (pc s w) = Some r \<longrightarrow> r \<noteq> 0 \<and> r < nchans s" using assms by (simp add: inv_captCh_def)
  ultimately show ?thesis using en
    by (auto simp: inv_L_def inv_capCh_def inv_captCh_def inv_checker_def inv_curCh_def inv_lockCh_def goto_def count_pc_upd check_def CompareAndSwapUintptr_def simp del: of_nat_eq_iff split: if_splits)
next
  case (Delegate w g)
  then have en: "g < nthreads s" "w < nthreads s" "g \<noteq> w" and "delegate w g s = Some s'"
    using assms by (auto split: if_splits)
  from delegateD[OF this(4)] obtain c where "pc s w = W_relock c" and "pc s g = S_select"
    and "s' = goto g S_lower (goto w (W_Llock c) s)"
    by blast
  moreover
  note assms
  moreover have "holds_L (pc s g) \<longrightarrow> L s = Some g" using assms by (simp add: inv_L_def)
  moreover have "\<forall>r. captured (pc s g) = Some r \<longrightarrow> r \<noteq> 0 \<and> r < nchans s" using assms by (simp add: inv_captCh_def)
  moreover have "holds_L (pc s w) \<longrightarrow> L s = Some w" using assms by (simp add: inv_L_def)
  moreover have "\<forall>r. captured (pc s w) = Some r \<longrightarrow> r \<noteq> 0 \<and> r < nchans s" using assms by (simp add: inv_captCh_def)
  ultimately show ?thesis using en
    by (auto simp: inv_L_def inv_capCh_def inv_captCh_def inv_checker_def inv_curCh_def inv_lockCh_def goto_def count_pc_upd check_def CompareAndSwapUintptr_def simp del: of_nat_eq_iff split: if_splits)
qed

lemma inv_nopanic_step_mtxCh:
  assumes "inv_nopanic s" and "inv_L s" and "inv_checker s" and "inv_curCh s" and "event_mtxCh e s = Some s'"
  shows "inv_nopanic s'"
proof (cases e)
  case (Tau t)
  note assms
  moreover have "holds_L (pc s t) \<longrightarrow> L s = Some t" using assms by (simp add: inv_L_def)
  ultimately show ?thesis using Tau
    by (cases "pc s t") (auto simp: inv_L_def inv_checker_def inv_curCh_def inv_nopanic_def op_defs mtxCh_defs Let_def check_def CompareAndSwapUintptr_def  split: if_splits sum.splits option.splits result.splits)
next
  case (Invoke t m)
  then show ?thesis using assms
    by (cases m) (auto simp: inv_L_def inv_checker_def inv_curCh_def inv_nopanic_def op_defs check_def CompareAndSwapUintptr_def  split: if_splits pc.splits result.splits)
next
  case (WakeCh t)
  then have en: "t < nthreads s" and "wake_ch_mtxCh t s = Some s'"
    using assms by (auto split: if_splits)
  from wake_ch_mtxChD[OF this(2)] obtain x r where "pc s t = W_select x (Some r)"
    and "0 < buf (chans s r) \<and> s' = goto t (W_dec None) (recv r s) \<or>
         buf (chans s r) = 0 \<and> closed (chans s r) \<and> s' = goto t (W_relock None) s"
    by blast
  moreover
  note assms
  moreover have "holds_L (pc s t) \<longrightarrow> L s = Some t" using assms by (simp add: inv_L_def)
  ultimately show ?thesis using en
    by (auto simp: inv_L_def inv_checker_def inv_curCh_def inv_nopanic_def goto_def recv_def can_recv_def check_def CompareAndSwapUintptr_def  split: if_splits)
next
  case (WakeCtx t)
  then have en: "t < nthreads s" and "wake_ctx t s = Some s'"
    using assms by (auto split: if_splits)
  from wake_ctxD[OF this(2)] obtain x r c where "pc s t = W_select x r" and "ctx_err s x = Some c"
    and "s' = goto t (W_relock (Some c)) s"
    by blast
  moreover
  note assms
  moreover have "holds_L (pc s t) \<longrightarrow> L s = Some t" using assms by (simp add: inv_L_def)
  ultimately show ?thesis using en
    by (auto simp: inv_L_def inv_checker_def inv_curCh_def inv_nopanic_def goto_def check_def CompareAndSwapUintptr_def  split: if_splits)
next
  case (Cancel k x)
  then show ?thesis using assms
    by (auto simp: inv_L_def inv_checker_def inv_curCh_def inv_nopanic_def op_defs split: if_splits)
next
  case (Acquire t)
  then show ?thesis using assms
    by (auto simp: inv_L_def inv_checker_def inv_curCh_def inv_nopanic_def op_defs check_def CompareAndSwapUintptr_def  split: if_splits pc.splits result.splits)
next
  case (Release t)
  then show ?thesis using assms
    by (auto simp: inv_L_def inv_checker_def inv_curCh_def inv_nopanic_def op_defs check_def CompareAndSwapUintptr_def  split: if_splits pc.splits result.splits)
next
  case (Recover t)
  then show ?thesis using assms
    by (auto simp: inv_L_def inv_checker_def inv_curCh_def inv_nopanic_def op_defs recover_def check_def CompareAndSwapUintptr_def  split: if_splits pc.splits result.splits)
next
  case (Handoff g w)
  then have en: "g < nthreads s" "w < nthreads s" "g \<noteq> w" and "handoff g w s = Some s'"
    using assms by (auto split: if_splits)
  from handoffD[OF this(4)] obtain x r where "pc s g = S_select" and "pc s w = W_select x (Some r)"
    and "ch s = Some r" and "\<not> closed (chans s r)"
    and "s' = goto w (W_dec None) (goto g (Returned Done) s)"
    by blast
  moreover
  note assms
  moreover have "holds_L (pc s g) \<longrightarrow> L s = Some g" using assms by (simp add: inv_L_def)
  moreover have "holds_L (pc s w) \<longrightarrow> L s = Some w" using assms by (simp add: inv_L_def)
  ultimately show ?thesis using en
    by (auto simp: inv_L_def inv_checker_def inv_curCh_def inv_nopanic_def goto_def check_def CompareAndSwapUintptr_def  split: if_splits)
next
  case (Delegate w g)
  then have en: "g < nthreads s" "w < nthreads s" "g \<noteq> w" and "delegate w g s = Some s'"
    using assms by (auto split: if_splits)
  from delegateD[OF this(4)] obtain c where "pc s w = W_relock c" and "pc s g = S_select"
    and "s' = goto g S_lower (goto w (W_Llock c) s)"
    by blast
  moreover
  note assms
  moreover have "holds_L (pc s g) \<longrightarrow> L s = Some g" using assms by (simp add: inv_L_def)
  moreover have "holds_L (pc s w) \<longrightarrow> L s = Some w" using assms by (simp add: inv_L_def)
  ultimately show ?thesis using en
    by (auto simp: inv_L_def inv_checker_def inv_curCh_def inv_nopanic_def goto_def check_def CompareAndSwapUintptr_def  split: if_splits)
qed

lemma inv_range_step_mtxCh:
  assumes "inv_range s" and "event_mtxCh e s = Some s'"
  shows "inv_range s'"
proof (cases e)
  case (Tau t)
  note assms
  moreover note TrueI
  ultimately show ?thesis using Tau
    by (cases "pc s t") (auto simp: inv_range_def op_defs mtxCh_defs Let_def   split: if_splits sum.splits option.splits result.splits)
next
  case (Invoke t m)
  then show ?thesis using assms
    by (cases m) (auto simp: inv_range_def op_defs   split: if_splits pc.splits result.splits)
next
  case (WakeCh t)
  then have en: "t < nthreads s" and "wake_ch_mtxCh t s = Some s'"
    using assms by (auto split: if_splits)
  from wake_ch_mtxChD[OF this(2)] obtain x r where "pc s t = W_select x (Some r)"
    and "0 < buf (chans s r) \<and> s' = goto t (W_dec None) (recv r s) \<or>
         buf (chans s r) = 0 \<and> closed (chans s r) \<and> s' = goto t (W_relock None) s"
    by blast
  moreover
  note assms
  moreover note TrueI
  ultimately show ?thesis using en
    by (auto simp: inv_range_def goto_def recv_def can_recv_def   split: if_splits)
next
  case (WakeCtx t)
  then have en: "t < nthreads s" and "wake_ctx t s = Some s'"
    using assms by (auto split: if_splits)
  from wake_ctxD[OF this(2)] obtain x r c where "pc s t = W_select x r" and "ctx_err s x = Some c"
    and "s' = goto t (W_relock (Some c)) s"
    by blast
  moreover
  note assms
  moreover note TrueI
  ultimately show ?thesis using en
    by (auto simp: inv_range_def goto_def   split: if_splits)
next
  case (Cancel k x)
  then show ?thesis using assms
    by (auto simp: inv_range_def op_defs split: if_splits)
next
  case (Acquire t)
  then show ?thesis using assms
    by (auto simp: inv_range_def op_defs   split: if_splits pc.splits result.splits)
next
  case (Release t)
  then show ?thesis using assms
    by (auto simp: inv_range_def op_defs   split: if_splits pc.splits result.splits)
next
  case (Recover t)
  then show ?thesis using assms
    by (auto simp: inv_range_def op_defs recover_def   split: if_splits pc.splits result.splits)
next
  case (Handoff g w)
  then have en: "g < nthreads s" "w < nthreads s" "g \<noteq> w" and "handoff g w s = Some s'"
    using assms by (auto split: if_splits)
  from handoffD[OF this(4)] obtain x r where "pc s g = S_select" and "pc s w = W_select x (Some r)"
    and "ch s = Some r" and "\<not> closed (chans s r)"
    and "s' = goto w (W_dec None) (goto g (Returned Done) s)"
    by blast
  moreover
  note assms
  moreover note TrueI
  ultimately show ?thesis using en
    by (auto simp: inv_range_def goto_def   split: if_splits)
next
  case (Delegate w g)
  then have en: "g < nthreads s" "w < nthreads s" "g \<noteq> w" and "delegate w g s = Some s'"
    using assms by (auto split: if_splits)
  from delegateD[OF this(4)] obtain c where "pc s w = W_relock c" and "pc s g = S_select"
    and "s' = goto g S_lower (goto w (W_Llock c) s)"
    by blast
  moreover
  note assms
  moreover note TrueI
  ultimately show ?thesis using en
    by (auto simp: inv_range_def goto_def   split: if_splits)
qed

subsection \<open>The invariants hold in every reachable state\<close>

lemma inv_mtx_step:
  assumes "inv_mtx s" and "event_mtx e s = Some s'"
  shows "inv_mtx s'"
  using assms unfolding inv_mtx_def
  by (blast intro: inv_L_step_mtx inv_owner_step_mtx inv_count_step_mtx inv_checker_step_mtx
      inv_cur_step_mtx inv_cap_step_mtx inv_capt_step_mtx inv_token_step_mtx inv_nil_step_mtx
      inv_nopanic_step_mtx inv_range_step_mtx)

lemma inv_mtx_NewCond: "a \<noteq> 0 \<Longrightarrow> inv_mtx (NewCond_mtx a n)"
  by (simp add: inv_mtx_def NewCond_mtx_def inv_L_def inv_owner_def inv_count_def inv_checker_def
      inv_cur_def inv_cap_def inv_capt_def inv_token_def inv_nil_def inv_nopanic_def inv_range_def
      count_pc_Idle)

lemma reach_mtx_inv: "reach_mtx s \<Longrightarrow> inv_mtx s"
  by (induction rule: reach_mtx.induct) (auto intro: inv_mtx_NewCond inv_mtx_step)

lemma run_mtx_reach: "run_mtx es s = Some s' \<Longrightarrow> reach_mtx s \<Longrightarrow> reach_mtx s'"
  by (induction es arbitrary: s) (auto split: option.splits intro: reach_mtx.reach_step)

lemma inv_mtxCh_step:
  assumes "inv_mtxCh s" and "event_mtxCh e s = Some s'"
  shows "inv_mtxCh s'"
  using assms unfolding inv_mtxCh_def
  by (blast intro: inv_L_step_mtxCh inv_checker_step_mtxCh inv_curCh_step_mtxCh
      inv_capCh_step_mtxCh inv_captCh_step_mtxCh inv_countCh_step_mtxCh inv_lockCh_step_mtxCh
      inv_nopanic_step_mtxCh inv_range_step_mtxCh)

lemma inv_mtxCh_NewCond: "a \<noteq> 0 \<Longrightarrow> inv_mtxCh (NewCond_mtxCh a n)"
  by (simp add: inv_mtxCh_def NewCond_mtxCh_def inv_L_def inv_countCh_def inv_checker_def
      inv_curCh_def inv_capCh_def inv_captCh_def inv_lockCh_def inv_nopanic_def inv_range_def
      count_pc_Idle make_chan_def)

lemma reach_mtxCh_inv: "reach_mtxCh s \<Longrightarrow> inv_mtxCh s"
  by (induction rule: reach_mtxCh.induct) (auto intro: inv_mtxCh_NewCond inv_mtxCh_step)

lemma run_mtxCh_reach: "run_mtxCh es s = Some s' \<Longrightarrow> reach_mtxCh s \<Longrightarrow> reach_mtxCh s'"
  by (induction es arbitrary: s) (auto split: option.splits intro: reach_mtxCh.reachCh_step)

lemma reach_mtx_run:
  "a \<noteq> 0 \<Longrightarrow> run_mtx es (NewCond_mtx a n) \<noteq> None \<Longrightarrow>
   reach_mtx (the (run_mtx es (NewCond_mtx a n)))"
  using run_mtx_reach [OF _ reach_mtx.reach_init] by fastforce

lemma reach_mtxCh_run:
  "a \<noteq> 0 \<Longrightarrow> run_mtxCh es (NewCond_mtxCh a n) \<noteq> None \<Longrightarrow>
   reach_mtxCh (the (run_mtxCh es (NewCond_mtxCh a n)))"
  using run_mtxCh_reach [OF _ reach_mtxCh.reachCh_init] by fastforce

text \<open>A run in two parts.\<close>

lemma run_mtx_append:
  "run_mtx (xs @ ys) s = (case run_mtx xs s of None \<Rightarrow> None | Some s' \<Rightarrow> run_mtx ys s')"
  by (induction xs arbitrary: s) (auto split: option.splits)

lemma run_mtx_the:
  "run_mtx (xs @ ys) s \<noteq> None \<Longrightarrow>
   run_mtx ys (the (run_mtx xs s)) = Some (the (run_mtx (xs @ ys) s))"
  by (auto simp: run_mtx_append split: option.splits)

lemma run_mtxCh_append:
  "run_mtxCh (xs @ ys) s = (case run_mtxCh xs s of None \<Rightarrow> None | Some s' \<Rightarrow> run_mtxCh ys s')"
  by (induction xs arbitrary: s) (auto split: option.splits)

lemma run_mtxCh_the:
  "run_mtxCh (xs @ ys) s \<noteq> None \<Longrightarrow>
   run_mtxCh ys (the (run_mtxCh xs s)) = Some (the (run_mtxCh (xs @ ys) s))"
  by (auto simp: run_mtxCh_append split: option.splits)

lemma run_mtx_single: "run_mtx [e] s = event_mtx e s"
  by (simp split: option.splits)

lemma run_mtxCh_single: "run_mtxCh [e] s = event_mtxCh e s"
  by (simp split: option.splits)

lemma run_mtx_prefix: "run_mtx (xs @ ys) s \<noteq> None \<Longrightarrow> run_mtx xs s \<noteq> None"
  by (auto simp: run_mtx_append split: option.splits)

lemma run_mtxCh_prefix: "run_mtxCh (xs @ ys) s \<noteq> None \<Longrightarrow> run_mtxCh xs s \<noteq> None"
  by (auto simp: run_mtxCh_append split: option.splits)

section \<open>The claims\<close>

lemmas eval_mtx = NewCond_mtx_def op_defs mtx_defs Let_def check_def CompareAndSwapUintptr_def
  to_select_def to_registered_def call1_def to_return_def

lemmas eval_mtxCh = NewCond_mtxCh_def zero_mtxCh_def op_defs mtxCh_defs Let_def check_def
  CompareAndSwapUintptr_def to_select_def to_registered_def call1_def to_return_def

subsection \<open>Auxiliary facts\<close>

lemma count_pc_eq: "(\<forall>t<n. P (f t) = Q (f t)) \<Longrightarrow> count_pc P f n = count_pc Q f n"
  by (induction n) auto

lemma into_return_mtx:
  assumes "event_mtx ev s = Some s2" and "pc s2 t = Returned (WaitRet e)"
    and "pc s t \<noteq> Returned (WaitRet e)"
  shows "ev = Tau t \<and> pc s t = W_Llock e \<and> L s = None \<and> L s2 = Some t"
proof (cases ev)
  case (Tau u)
  then show ?thesis using assms
    by (cases "pc s u") (auto simp: op_defs mtx_defs Let_def split: if_splits sum.splits option.splits)
next
  case (Invoke u m)
  then show ?thesis using assms by (cases m) (auto simp: op_defs split: if_splits)
next
  case (WakeCh u)
  then show ?thesis using assms by (auto simp: goto_def recv_def dest!: wake_ch_mtxD split: if_splits)
next
  case (WakeCtx u)
  then show ?thesis using assms by (auto simp: goto_def dest!: wake_ctxD split: if_splits)
qed (use assms in \<open>auto simp: op_defs recover_def split: if_splits pc.splits\<close>)

lemma into_return_mtxCh:
  assumes "event_mtxCh ev s = Some s2" and "pc s2 t = Returned (WaitRet e)"
    and "pc s t \<noteq> Returned (WaitRet e)"
  shows "ev = Tau t \<and> pc s t = W_Llock e \<and> L s = None \<and> L s2 = Some t"
proof (cases ev)
  case (Tau u)
  then show ?thesis using assms
    by (cases "pc s u") (auto simp: op_defs mtxCh_defs Let_def split: if_splits sum.splits option.splits)
next
  case (Invoke u m)
  then show ?thesis using assms by (cases m) (auto simp: op_defs split: if_splits)
next
  case (WakeCh u)
  then show ?thesis using assms by (auto simp: goto_def recv_def dest!: wake_ch_mtxChD split: if_splits)
next
  case (WakeCtx u)
  then show ?thesis using assms by (auto simp: goto_def dest!: wake_ctxD split: if_splits)
next
  case (Handoff g w)
  then show ?thesis using assms by (auto simp: goto_def dest!: handoffD split: if_splits)
next
  case (Delegate w g)
  then show ?thesis using assms by (auto simp: goto_def dest!: delegateD split: if_splits)
qed (use assms in \<open>auto simp: op_defs recover_def split: if_splits pc.splits\<close>)

subsection \<open>C8: the use of a copied Cond panics\<close>

text \<open>
  C8, as amended.  A prior operation ran \<open>check\<close> on the original, which lies at \<open>p\<close>, and
  \<open>check\<close> returned, leaving \<open>v\<close> in the checker.  The bytes of the original are then found
  at another address \<open>q\<close>: \<open>s\<close> (second listing) and \<open>s'\<close> (first listing) are any states of
  a Cond that lies at \<open>q\<close> and whose checker holds \<open>v\<close>.  Then \<open>check\<close> at \<open>q\<close> fails, and the
  first statement of every method called on the copy panics: with "contextcond.Cond is
  copied", or, in the first listing, with "must be initialized with NewCond" when \<open>mtxCh\<close>
  is nil.  \<open>check\<close> is a function, so the outcome is determined; the call has changed no
  field of the Cond, and the goroutine runs no further statement of it.  The panic is the
  one of \<open>panic(...)\<close>, an ordinary Go panic: a deferred \<open>recover()\<close> of the caller stops it
  and the goroutine goes on in its caller.
\<close>

theorem copy_is_detected:
  fixes s :: state_mtx and s' :: state_mtxCh
  assumes "check p v0 = Inr v" and "p \<noteq> 0" and "q \<noteq> p"
    and "addr s = q" and "checker s = v" and "pc s t = entry m"
    and "addr s' = q" and "checker s' = v" and "pc s' t' = entry m'"
  shows "check q v = Inl CondCopied \<and>
    (\<exists>c. tau_mtx t s = Some c \<and> pc c t = Panicked CondCopied \<and> tau_mtx t c = None \<and>
       c = goto t (Panicked CondCopied) s \<and> recover t c = Some (goto t Idle c)) \<and>
    (\<exists>c. tau_mtxCh t' s' = Some c \<and>
       pc c t' = Panicked (if mtxCh s' = None then NotInitialized else CondCopied) \<and>
       tau_mtxCh t' c = None \<and>
       c = goto t' (Panicked (if mtxCh s' = None then NotInitialized else CondCopied)) s' \<and>
       recover t' c = Some (goto t' Idle c))"
proof -
  have v: "v = p" using assms(1) by (rule check_Inr)
  have c: "check q v = Inl CondCopied"
    using assms(2,3) v by (auto simp: check_def CompareAndSwapUintptr_def)
  have a: "\<exists>c. tau_mtx t s = Some c \<and> pc c t = Panicked CondCopied \<and> tau_mtx t c = None \<and>
       c = goto t (Panicked CondCopied) s \<and> recover t c = Some (goto t Idle c)"
    using c assms(4,5,6)
    by (cases m) (simp_all add: tau_mtx_def entry_def checker_check_def goto_def recover_def)
  have b: "\<exists>c. tau_mtxCh t' s' = Some c \<and>
       pc c t' = Panicked (if mtxCh s' = None then NotInitialized else CondCopied) \<and>
       tau_mtxCh t' c = None \<and>
       c = goto t' (Panicked (if mtxCh s' = None then NotInitialized else CondCopied)) s' \<and>
       recover t' c = Some (goto t' Idle c)"
    using c assms(7,8,9)
    by (cases m')
      (simp_all add: tau_mtxCh_def entry_def checks_def checker_check_def goto_def recover_def)
  from c a b show ?thesis by (intro conjI)
qed

text \<open>A Cond is made at address 16 and goroutine 1 calls Signal on it; its fields are then
  found at address 32.  There goroutine 0 calls Signal and, having recovered, Broadcast:
  each call panics with "contextcond.Cond is copied", each panic is recovered, and the
  goroutine goes on: it stands in its caller and can lock \<open>c.L\<close>.  The same in the first
  listing.  The program has not been aborted.\<close>

theorem copy_is_detected_counterexample:
  "checker (the (run_mtx (call1 OpSignal) (NewCond_mtx 16 2))) = 16 \<and>
   pc (the (run_mtx [Invoke 0 OpSignal, Tau 0]
     (copy_to 32 (the (run_mtx (call1 OpSignal) (NewCond_mtx 16 2)))))) 0 = Panicked CondCopied \<and>
   pc (the (run_mtx [Invoke 0 OpSignal, Tau 0, Recover 0, Invoke 0 OpBroadcast, Tau 0]
     (copy_to 32 (the (run_mtx (call1 OpSignal) (NewCond_mtx 16 2)))))) 0 = Panicked CondCopied \<and>
   pc (the (run_mtx recovering
     (copy_to 32 (the (run_mtx (call1 OpSignal) (NewCond_mtx 16 2)))))) 0 = Idle \<and>
   run_mtx (recovering @ [Acquire 0])
     (copy_to 32 (the (run_mtx (call1 OpSignal) (NewCond_mtx 16 2)))) \<noteq> None \<and>
   checker (the (run_mtxCh (call1 OpSignal) (NewCond_mtxCh 16 2))) = 16 \<and>
   pc (the (run_mtxCh [Invoke 0 OpSignal, Tau 0]
     (copy_to 32 (the (run_mtxCh (call1 OpSignal) (NewCond_mtxCh 16 2)))))) 0 = Panicked CondCopied \<and>
   pc (the (run_mtxCh recovering
     (copy_to 32 (the (run_mtxCh (call1 OpSignal) (NewCond_mtxCh 16 2)))))) 0 = Idle \<and>
   run_mtxCh (recovering @ [Acquire 0])
     (copy_to 32 (the (run_mtxCh (call1 OpSignal) (NewCond_mtxCh 16 2)))) \<noteq> None"
  by (simp add: eval_mtx eval_mtxCh copy_to_def recovering_def recover_def)

text \<open>The original at address 16, used once; the copy at address 32; Signal on the copy in
  the second listing, Wait on the copy in the first.\<close>

theorem copy_is_detected_witness:
  "check 16 0 = Inr 16 \<and> check 32 16 = Inl CondCopied \<and>
   pc (the (tau_mtx 0 (goto 0 (entry OpSignal) ((NewCond_mtx 32 1)\<lparr>checker := 16\<rparr>)))) 0
     = Panicked CondCopied \<and>
   pc (the (tau_mtxCh 0 (goto 0 (entry OpWait) ((NewCond_mtxCh 32 1)\<lparr>checker := 16\<rparr>)))) 0
     = Panicked CondCopied"
  using copy_is_detected [of 16 0 16 32
      "goto 0 (entry OpSignal) ((NewCond_mtx 32 1)\<lparr>checker := 16\<rparr>)" 0 OpSignal
      "goto 0 (entry OpWait) ((NewCond_mtxCh 32 1)\<lparr>checker := 16\<rparr>)" 0 OpWait]
  by (auto simp: check_def CompareAndSwapUintptr_def goto_def NewCond_mtx_def NewCond_mtxCh_def)

subsection \<open>C10: no operation on a nil channel\<close>

text \<open>
  C10.  In every state the second listing can reach, \<open>waiters > 0\<close> implies that \<open>c.ch\<close> is
  not nil, and more: it is a channel that exists and is open.  So the close in Broadcast
  and the send in Signal, both guarded by \<open>waiters > 0\<close>, raise no fault.  WaitContext
  leaves \<open>c.ch\<close> non-nil when it has incremented \<open>waiters\<close>.
\<close>

theorem waiters_pos_ch_not_nil:
  assumes "reach_mtx s"
  shows "(0 < waiters s \<longrightarrow> (\<exists>r. ch s = Some r \<and> r < nchans s \<and> \<not> closed (chans s r))) \<and>
    (\<forall>f. Broadcast_body_mtx s \<noteq> Inl f) \<and> (\<forall>f. Signal_body_mtx s \<noteq> Inl f) \<and>
    ch (snd (register_mtx s)) \<noteq> None"
proof -
  from assms have "inv_mtx s" by (rule reach_mtx_inv)
  then have n: "inv_nil s" and c: "inv_cur s" by (simp_all add: inv_mtx_def)
  have 1: "0 < waiters s \<longrightarrow> (\<exists>r. ch s = Some r \<and> r < nchans s \<and> \<not> closed (chans s r))"
    using n c by (auto simp: inv_nil_def inv_cur_def)
  have 2: "\<forall>f. Broadcast_body_mtx s \<noteq> Inl f"
    using 1 by (auto simp: Broadcast_body_mtx_def chan_close_def split: sum.splits)
  have 3: "\<forall>f. Signal_body_mtx s \<noteq> Inl f"
    using 1 by (auto simp: Signal_body_mtx_def try_send_def split: if_splits)
  have 4: "ch (snd (register_mtx s)) \<noteq> None"
    by (simp add: register_mtx_def Let_def chan_make_def)
  from 1 2 3 4 show ?thesis by blast
qed

text \<open>One waiter has registered on a fresh Cond: \<open>waiters\<close> is 1 and \<open>c.ch\<close> is channel 0,
  open.\<close>

theorem waiters_pos_ch_not_nil_witness:
  "waiters (the (run_mtx to_registered (NewCond_mtx 16 1))) = 1 \<and>
   ch (the (run_mtx to_registered (NewCond_mtx 16 1))) = Some 0 \<and>
   \<not> closed (chans (the (run_mtx to_registered (NewCond_mtx 16 1))) 0)"
proof -
  have "run_mtx to_registered (NewCond_mtx 16 1) \<noteq> None"
    by (simp add: eval_mtx)
  then have "reach_mtx (the (run_mtx to_registered (NewCond_mtx 16 1)))"
    by (intro reach_mtx_run) simp_all
  from waiters_pos_ch_not_nil [OF this] show ?thesis
    by (simp add: eval_mtx)
qed

subsection \<open>C2: the caller holds \<open>c.L\<close> when Wait and WaitContext return\<close>

text \<open>
  C2.  In every reachable state of either listing, a goroutine that has returned from
  Wait or WaitContext, with whatever result, holds \<open>c.L\<close>.  Moreover the only event that
  takes a goroutine to that return is its statement \<open>c.L.Lock()\<close>, run when the lock was
  free: every exit path, woken or cancelled, ends in it.  (Callers call Wait and
  WaitContext holding \<open>c.L\<close>, as the comment at line 88 asks.)
\<close>

theorem returns_holding_L:
  fixes s :: state_mtx and s' :: state_mtxCh
  assumes "reach_mtx s" and "reach_mtxCh s'"
  shows "(pc s t = Returned (WaitRet e) \<longrightarrow> L s = Some t) \<and>
    (pc s' t = Returned (WaitRet e) \<longrightarrow> L s' = Some t) \<and>
    (\<forall>ev s2. event_mtx ev s = Some s2 \<and> pc s2 t = Returned (WaitRet e) \<and>
       pc s t \<noteq> Returned (WaitRet e) \<longrightarrow>
       ev = Tau t \<and> pc s t = W_Llock e \<and> L s = None \<and> L s2 = Some t) \<and>
    (\<forall>ev s2. event_mtxCh ev s' = Some s2 \<and> pc s2 t = Returned (WaitRet e) \<and>
       pc s' t \<noteq> Returned (WaitRet e) \<longrightarrow>
       ev = Tau t \<and> pc s' t = W_Llock e \<and> L s' = None \<and> L s2 = Some t)"
proof -
  have "inv_L s" using assms(1) reach_mtx_inv by (simp add: inv_mtx_def)
  then have 1: "pc s t = Returned (WaitRet e) \<longrightarrow> L s = Some t"
    by (auto simp: inv_L_def)
  have "inv_L s'" using assms(2) reach_mtxCh_inv by (simp add: inv_mtxCh_def)
  then have 2: "pc s' t = Returned (WaitRet e) \<longrightarrow> L s' = Some t"
    by (auto simp: inv_L_def)
  from 1 2 show ?thesis using into_return_mtx into_return_mtxCh by blast
qed

text \<open>A waiter whose deadline passed (second listing) and a waiter that was handed a token
  (first listing) have returned and hold \<open>c.L\<close>.\<close>

theorem returns_holding_L_witness:
  "pc (the (run_mtx timed_out (NewCond_mtx 16 2))) 0 = Returned (WaitRet (Some DeadlineExceeded)) \<and>
   L (the (run_mtx timed_out (NewCond_mtx 16 2))) = Some 0 \<and>
   pc (the (run_mtxCh handed (NewCond_mtxCh 16 2))) 0 = Returned (WaitRet None) \<and>
   L (the (run_mtxCh handed (NewCond_mtxCh 16 2))) = Some 0"
proof -
  have "run_mtx timed_out (NewCond_mtx 16 2) \<noteq> None"
    by (simp add: eval_mtx timed_out_def)
  then have 1: "reach_mtx (the (run_mtx timed_out (NewCond_mtx 16 2)))"
    by (intro reach_mtx_run) simp_all
  have "run_mtxCh handed (NewCond_mtxCh 16 2) \<noteq> None"
    by (simp add: eval_mtxCh handed_def)
  then have 2: "reach_mtxCh (the (run_mtxCh handed (NewCond_mtxCh 16 2)))"
    by (intro reach_mtxCh_run) simp_all
  have 3: "pc (the (run_mtx timed_out (NewCond_mtx 16 2))) 0 = Returned (WaitRet (Some DeadlineExceeded))"
    by (simp add: eval_mtx timed_out_def)
  have 4: "pc (the (run_mtxCh handed (NewCond_mtxCh 16 2))) 0 = Returned (WaitRet None)"
    by (simp add: eval_mtxCh handed_def)
  from returns_holding_L [OF 1 2, of 0 "Some DeadlineExceeded"] 3
  have 5: "L (the (run_mtx timed_out (NewCond_mtx 16 2))) = Some 0" by blast
  from returns_holding_L [OF 1 2, of 0 None] 4
  have 6: "L (the (run_mtxCh handed (NewCond_mtxCh 16 2))) = Some 0" by blast
  from 3 4 5 6 show ?thesis by blast
qed

subsection \<open>C7: \<open>waiters\<close> counts the goroutines in the wait path\<close>

text \<open>
  C7.  In every reachable state \<open>waiters\<close> is not negative and equals the number of
  goroutines that have run \<open>c.waiters++\<close> and whose decrement is outstanding: in the
  second listing the goroutines between \<open>c.waiters++\<close> and \<open>c.waiters--\<close>; in the first
  listing these, less the waiters that delegated the decrement, plus the signallers that
  accepted one and have not run \<open>c.waiters--\<close> yet.  When no signaller stands there, the
  count is the number of goroutines in the wait path in the first listing too.  The
  registration adds exactly one and the deregistration takes exactly one away.
\<close>

theorem waiters_counts_wait_path:
  fixes s :: state_mtx and s' :: state_mtxCh
  assumes "reach_mtx s" and "reach_mtxCh s'"
  shows "0 \<le> waiters s \<and> waiters s = int (count_pc counted (pc s) (nthreads s)) \<and>
    0 \<le> waiters s' \<and> waiters s' = int (count_pc counted_mtxCh (pc s') (nthreads s')) \<and>
    ((\<forall>t. pc s' t \<noteq> S_lower) \<longrightarrow> waiters s' = int (count_pc counted (pc s') (nthreads s'))) \<and>
    waiters (snd (register_mtx s)) = waiters s + 1 \<and> waiters (unregister_mtx s) = waiters s - 1"
proof -
  have 1: "waiters s = int (count_pc counted (pc s) (nthreads s))"
    using assms(1) reach_mtx_inv by (simp add: inv_mtx_def inv_count_def)
  have 2: "waiters s' = int (count_pc counted_mtxCh (pc s') (nthreads s'))"
    using assms(2) reach_mtxCh_inv by (simp add: inv_mtxCh_def inv_countCh_def)
  have 3: "count_pc counted_mtxCh (pc s') (nthreads s') = count_pc counted (pc s') (nthreads s')"
    if "\<forall>t. pc s' t \<noteq> S_lower"
  proof (rule count_pc_eq, intro allI impI)
    fix t
    show "counted_mtxCh (pc s' t) = counted (pc s' t)"
      using that by (cases "pc s' t") auto
  qed
  have 4: "waiters (snd (register_mtx s)) = waiters s + 1"
    by (simp add: register_mtx_def Let_def chan_make_def)
  have 5: "waiters (unregister_mtx s) = waiters s - 1"
    by (simp add: unregister_mtx_def Let_def try_recv_def recv_def split: option.splits)
  from 1 2 3 4 5 show ?thesis by simp
qed

text \<open>One waiter at its select: \<open>waiters\<close> is 1 and one goroutine is counted.  After the
  waiter has left, by its deadline or through a delegated decrement, \<open>waiters\<close> is 0.\<close>

theorem waiters_counts_wait_path_witness:
  "waiters (the (run_mtx to_select (NewCond_mtx 16 2))) = 1 \<and>
   count_pc counted (pc (the (run_mtx to_select (NewCond_mtx 16 2)))) 2 = 1 \<and>
   waiters (the (run_mtx timed_out (NewCond_mtx 16 2))) = 0 \<and>
   waiters (the (run_mtxCh delegated (NewCond_mtxCh 16 2))) = 0 \<and>
   pc (the (run_mtxCh delegated (NewCond_mtxCh 16 2))) 0 = Returned (WaitRet (Some Canceled)) \<and>
   pc (the (run_mtxCh delegated (NewCond_mtxCh 16 2))) 1 = Returned Done"
proof -
  have "run_mtx to_select (NewCond_mtx 16 2) \<noteq> None"
    by (simp add: eval_mtx)
  then have 1: "reach_mtx (the (run_mtx to_select (NewCond_mtx 16 2)))"
    by (intro reach_mtx_run) simp_all
  have "run_mtxCh delegated (NewCond_mtxCh 16 2) \<noteq> None"
    by (simp add: eval_mtxCh delegated_def)
  then have 2: "reach_mtxCh (the (run_mtxCh delegated (NewCond_mtxCh 16 2)))"
    by (intro reach_mtxCh_run) simp_all
  have 3: "nthreads (the (run_mtx to_select (NewCond_mtx 16 2))) = 2"
    by (simp add: eval_mtx)
  have 4: "waiters (the (run_mtx to_select (NewCond_mtx 16 2))) = 1"
    by (simp add: eval_mtx)
  from waiters_counts_wait_path [OF 1 2] 3 4
  have 5: "count_pc counted (pc (the (run_mtx to_select (NewCond_mtx 16 2)))) 2 = 1"
    by simp
  have 6: "waiters (the (run_mtx timed_out (NewCond_mtx 16 2))) = 0"
    by (simp add: eval_mtx timed_out_def)
  have 7: "waiters (the (run_mtxCh delegated (NewCond_mtxCh 16 2))) = 0 \<and>
   pc (the (run_mtxCh delegated (NewCond_mtxCh 16 2))) 0 = Returned (WaitRet (Some Canceled)) \<and>
   pc (the (run_mtxCh delegated (NewCond_mtxCh 16 2))) 1 = Returned Done"
    by (simp add: eval_mtxCh delegated_def)
  from 4 5 6 7 show ?thesis by blast
qed

subsection \<open>C3: what WaitContext returns\<close>

lemma chosen_step_mtx:
  assumes "inv_owner s" and "event_mtx e s = Some s'" and "chosen (pc s t) = Some v"
    and "quiet t e"
  shows "chosen (pc s' t) = Some v"
proof (cases e)
  case (Tau u)
  have "crit_mtx (pc s u) \<longrightarrow> mtx s = Some u" using assms(1) by (simp add: inv_owner_def)
  then show ?thesis using Tau assms(2,3)
    by (cases "pc s u") (auto simp: op_defs mtx_defs Let_def split: if_splits sum.splits option.splits)
next
  case (Invoke u m)
  then show ?thesis using assms by (cases m) (auto simp: op_defs split: if_splits)
next
  case (WakeCh u)
  then show ?thesis using assms by (auto simp: goto_def recv_def dest!: wake_ch_mtxD split: if_splits)
next
  case (WakeCtx u)
  then show ?thesis using assms by (auto simp: goto_def dest!: wake_ctxD split: if_splits)
qed (use assms in \<open>auto simp: op_defs recover_def split: if_splits pc.splits\<close>)

lemma chosen_run_mtx:
  assumes "run_mtx es s = Some s'" and "reach_mtx s" and "chosen (pc s t) = Some v"
    and "list_all (quiet t) es"
  shows "chosen (pc s' t) = Some v"
  using assms
proof (induction es arbitrary: s)
  case Nil
  then show ?case by simp
next
  case (Cons e es)
  from Cons.prems(1) obtain s1 where e: "event_mtx e s = Some s1" and r: "run_mtx es s1 = Some s'"
    by (auto split: option.splits)
  have "inv_owner s" using Cons.prems(2) reach_mtx_inv by (simp add: inv_mtx_def)
  with e Cons.prems(3,4) have "chosen (pc s1 t) = Some v"
    by (intro chosen_step_mtx [of s e s1 t v]) simp_all
  moreover have "reach_mtx s1" using Cons.prems(2) e by (rule reach_mtx.reach_step)
  ultimately show ?case using Cons.IH r Cons.prems(4) by simp
qed

lemma chosen_step_mtxCh:
  assumes "inv_curCh s" and "event_mtxCh e s = Some s'" and "chosen (pc s t) = Some v"
    and "quiet t e"
  shows "chosen (pc s' t) = Some v"
proof (cases e)
  case (Tau u)
  then show ?thesis using assms
    by (cases "pc s u") (auto simp: inv_curCh_def op_defs mtxCh_defs Let_def split: if_splits sum.splits option.splits)
next
  case (Invoke u m)
  then show ?thesis using assms by (cases m) (auto simp: op_defs split: if_splits)
next
  case (WakeCh u)
  then show ?thesis using assms by (auto simp: goto_def recv_def dest!: wake_ch_mtxChD split: if_splits)
next
  case (WakeCtx u)
  then show ?thesis using assms by (auto simp: goto_def dest!: wake_ctxD split: if_splits)
next
  case (Handoff g w)
  then show ?thesis using assms by (auto simp: goto_def dest!: handoffD split: if_splits)
next
  case (Delegate w g)
  then show ?thesis using assms by (auto simp: goto_def dest!: delegateD split: if_splits)
qed (use assms in \<open>auto simp: op_defs recover_def split: if_splits pc.splits\<close>)

lemma chosen_run_mtxCh:
  assumes "run_mtxCh es s = Some s'" and "reach_mtxCh s" and "chosen (pc s t) = Some v"
    and "list_all (quiet t) es"
  shows "chosen (pc s' t) = Some v"
  using assms
proof (induction es arbitrary: s)
  case Nil
  then show ?case by simp
next
  case (Cons e es)
  from Cons.prems(1) obtain s1 where e: "event_mtxCh e s = Some s1" and r: "run_mtxCh es s1 = Some s'"
    by (auto split: option.splits)
  have "inv_curCh s" using Cons.prems(2) reach_mtxCh_inv by (simp add: inv_mtxCh_def)
  with e Cons.prems(3,4) have "chosen (pc s1 t) = Some v"
    by (intro chosen_step_mtxCh [of s e s1 t v]) simp_all
  moreover have "reach_mtxCh s1" using Cons.prems(2) e by (rule reach_mtxCh.reachCh_step)
  ultimately show ?case using Cons.IH r Cons.prems(4) by simp
qed

text \<open>The events a goroutine at its select takes part in.\<close>

lemma select_events_mtx:
  assumes "pc s t = W_select x c" and "event_mtx ev s = Some s1" and "involves t ev"
  shows "ev = WakeCh t \<and> chosen (pc s1 t) = Some None \<or>
         ev = WakeCtx t \<and> ctx_err s x \<noteq> None \<and> chosen (pc s1 t) = Some (ctx_err s x)"
proof (cases ev)
  case (Tau u)
  then show ?thesis using assms by (auto simp: tau_mtx_def split: if_splits)
next
  case (Invoke u m)
  then show ?thesis using assms by (auto simp: op_defs split: if_splits)
next
  case (WakeCh u)
  then show ?thesis using assms by (auto simp: goto_def recv_def dest!: wake_ch_mtxD split: if_splits)
next
  case (WakeCtx u)
  then show ?thesis using assms by (auto simp: goto_def dest!: wake_ctxD split: if_splits)
qed (use assms in \<open>auto simp: op_defs recover_def split: if_splits pc.splits\<close>)

lemma select_events_mtxCh:
  assumes "pc s t = W_select x c" and "event_mtxCh ev s = Some s1" and "involves t ev"
  shows "(ev = WakeCh t \<or> (\<exists>g. ev = Handoff g t)) \<and> chosen (pc s1 t) = Some None \<or>
         ev = WakeCtx t \<and> ctx_err s x \<noteq> None \<and> chosen (pc s1 t) = Some (ctx_err s x)"
proof (cases ev)
  case (Tau u)
  then show ?thesis using assms by (auto simp: tau_mtxCh_def split: if_splits)
next
  case (Invoke u m)
  then show ?thesis using assms by (auto simp: op_defs split: if_splits)
next
  case (WakeCh u)
  then show ?thesis using assms by (auto simp: goto_def recv_def dest!: wake_ch_mtxChD split: if_splits)
next
  case (WakeCtx u)
  then show ?thesis using assms by (auto simp: goto_def dest!: wake_ctxD split: if_splits)
next
  case (Handoff g w)
  then show ?thesis using assms by (auto simp: goto_def dest!: handoffD split: if_splits)
next
  case (Delegate w g)
  then show ?thesis using assms by (auto simp: goto_def dest!: delegateD split: if_splits)
qed (use assms in \<open>auto simp: op_defs recover_def split: if_splits pc.splits\<close>)

text \<open>A call comes by its result only at its select.\<close>

lemma only_select_chooses_mtx:
  assumes "event_mtx ev s = Some s'" and "chosen (pc s t) = None" and "chosen (pc s' t) = Some v"
  shows "\<exists>x c. pc s t = W_select x c \<and>
    (ev = WakeCh t \<and> v = None \<and> (\<exists>r. c = Some r \<and> can_recv r s) \<or>
     ev = WakeCtx t \<and> v = ctx_err s x \<and> v \<noteq> None)"
proof (cases ev)
  case (Tau u)
  then show ?thesis using assms
    by (cases "pc s u") (auto simp: op_defs mtx_defs Let_def split: if_splits sum.splits option.splits)
next
  case (Invoke u m)
  then show ?thesis using assms by (cases m) (auto simp: op_defs split: if_splits)
next
  case (WakeCh u)
  then show ?thesis using assms by (auto simp: goto_def recv_def dest!: wake_ch_mtxD split: if_splits)
next
  case (WakeCtx u)
  then have "wake_ctx u s = Some s'" using assms(1) by (simp split: if_splits)
  from wake_ctxD [OF this] obtain x r c where "pc s u = W_select x r" and "ctx_err s x = Some c"
    and "s' = goto u (W_relock (Some c)) s"
    by blast
  then show ?thesis using WakeCtx assms(2,3) by (auto simp: goto_def split: if_splits) metis
qed (use assms in \<open>auto simp: op_defs recover_def split: if_splits pc.splits\<close>)

lemma only_select_chooses_mtxCh:
  assumes "event_mtxCh ev s = Some s'" and "chosen (pc s t) = None" and "chosen (pc s' t) = Some v"
  shows "\<exists>x c. pc s t = W_select x c \<and>
    ((ev = WakeCh t \<or> (\<exists>g. ev = Handoff g t)) \<and> v = None \<or>
     ev = WakeCtx t \<and> v = ctx_err s x \<and> v \<noteq> None)"
proof (cases ev)
  case (Tau u)
  then show ?thesis using assms
    by (cases "pc s u") (auto simp: op_defs mtxCh_defs Let_def split: if_splits sum.splits option.splits)
next
  case (Invoke u m)
  then show ?thesis using assms by (cases m) (auto simp: op_defs split: if_splits)
next
  case (WakeCh u)
  then show ?thesis using assms by (auto simp: goto_def recv_def dest!: wake_ch_mtxChD split: if_splits)
next
  case (WakeCtx u)
  then have "wake_ctx u s = Some s'" using assms(1) by (simp split: if_splits)
  from wake_ctxD [OF this] obtain x r c where "pc s u = W_select x r" and "ctx_err s x = Some c"
    and "s' = goto u (W_relock (Some c)) s"
    by blast
  then show ?thesis using WakeCtx assms(2,3) by (auto simp: goto_def split: if_splits) metis
next
  case (Handoff g w)
  then show ?thesis using assms by (auto simp: goto_def dest!: handoffD split: if_splits)
next
  case (Delegate w g)
  then show ?thesis using assms by (auto simp: goto_def dest!: delegateD split: if_splits)
qed (use assms in \<open>auto simp: op_defs recover_def split: if_splits pc.splits\<close>)

lemma unquiet_step_mtx:
  assumes "event_mtx e s = Some s'" and "\<not> quiet t e"
  shows "chosen (pc s' t) = None"
  using assms
  by (cases e) (auto simp: op_defs recover_def split: if_splits pc.splits call.splits)

lemma unquiet_step_mtxCh:
  assumes "event_mtxCh e s = Some s'" and "\<not> quiet t e"
  shows "chosen (pc s' t) = None"
  using assms
  by (cases e) (auto simp: op_defs recover_def split: if_splits pc.splits call.splits)

lemma decided_run_mtx:
  assumes "reach_mtx s" and "chosen (pc s t) = None"
    and "run_mtx es s = Some s2" and "chosen (pc s2 t) = Some v"
  shows "\<exists>es1 ev es2 sa sb x c. es = es1 @ ev # es2 \<and> run_mtx es1 s = Some sa \<and>
    pc sa t = W_select x c \<and> event_mtx ev sa = Some sb \<and> run_mtx es2 sb = Some s2 \<and>
    list_all (quiet t) es2 \<and>
    (ev = WakeCh t \<and> v = None \<or> ev = WakeCtx t \<and> v = ctx_err sa x \<and> v \<noteq> None)"
  using assms(3,4)
proof (induction es arbitrary: s2 rule: rev_induct)
  case Nil
  then show ?case using assms(2) by simp
next
  case (snoc e es)
  from snoc.prems(1) obtain s1 where r: "run_mtx es s = Some s1" and e: "event_mtx e s1 = Some s2"
    by (auto simp: run_mtx_append split: option.splits)
  show ?case
  proof (cases "chosen (pc s1 t)")
    case None
    from only_select_chooses_mtx [OF e None snoc.prems(2)]
    obtain x c where "pc s1 t = W_select x c"
      and "e = WakeCh t \<and> v = None \<or> e = WakeCtx t \<and> v = ctx_err s1 x \<and> v \<noteq> None"
      by blast
    with r e show ?thesis
      by (intro exI [of _ es] exI [of _ e] exI [of _ "[]"] exI [of _ s1] exI [of _ s2]
          exI [of _ x] exI [of _ c]) simp
  next
    case (Some w)
    have q: "quiet t e"
    proof (rule ccontr)
      assume "\<not> quiet t e"
      from unquiet_step_mtx [OF e this] show False using snoc.prems(2) by simp
    qed
    have "inv_owner s1" using run_mtx_reach [OF r assms(1)] reach_mtx_inv by (simp add: inv_mtx_def)
    from chosen_step_mtx [OF this e Some q] have w: "w = v" using snoc.prems(2) by simp
    from snoc.IH [OF r] Some w obtain es1 ev es2 sa sb x c where
      d: "es = es1 @ ev # es2" "run_mtx es1 s = Some sa" "pc sa t = W_select x c"
        "event_mtx ev sa = Some sb" "run_mtx es2 sb = Some s1" "list_all (quiet t) es2"
        "ev = WakeCh t \<and> v = None \<or> ev = WakeCtx t \<and> v = ctx_err sa x \<and> v \<noteq> None"
      by blast
    have "run_mtx (es2 @ [e]) sb = Some s2" using d(5) e by (simp add: run_mtx_append)
    with d q show ?thesis
      by (intro exI [of _ es1] exI [of _ ev] exI [of _ "es2 @ [e]"] exI [of _ sa] exI [of _ sb]
          exI [of _ x] exI [of _ c]) simp
  qed
qed

lemma decided_run_mtxCh:
  assumes "reach_mtxCh s" and "chosen (pc s t) = None"
    and "run_mtxCh es s = Some s2" and "chosen (pc s2 t) = Some v"
  shows "\<exists>es1 ev es2 sa sb x c. es = es1 @ ev # es2 \<and> run_mtxCh es1 s = Some sa \<and>
    pc sa t = W_select x c \<and> event_mtxCh ev sa = Some sb \<and> run_mtxCh es2 sb = Some s2 \<and>
    list_all (quiet t) es2 \<and>
    ((ev = WakeCh t \<or> (\<exists>g. ev = Handoff g t)) \<and> v = None \<or>
     ev = WakeCtx t \<and> v = ctx_err sa x \<and> v \<noteq> None)"
  using assms(3,4)
proof (induction es arbitrary: s2 rule: rev_induct)
  case Nil
  then show ?case using assms(2) by simp
next
  case (snoc e es)
  from snoc.prems(1) obtain s1 where r: "run_mtxCh es s = Some s1" and e: "event_mtxCh e s1 = Some s2"
    by (auto simp: run_mtxCh_append split: option.splits)
  show ?case
  proof (cases "chosen (pc s1 t)")
    case None
    from only_select_chooses_mtxCh [OF e None snoc.prems(2)]
    obtain x c where "pc s1 t = W_select x c"
      and "(e = WakeCh t \<or> (\<exists>g. e = Handoff g t)) \<and> v = None \<or>
        e = WakeCtx t \<and> v = ctx_err s1 x \<and> v \<noteq> None"
      by blast
    with r e show ?thesis
      by (intro exI [of _ es] exI [of _ e] exI [of _ "[]"] exI [of _ s1] exI [of _ s2]
          exI [of _ x] exI [of _ c]) simp
  next
    case (Some w)
    have q: "quiet t e"
    proof (rule ccontr)
      assume "\<not> quiet t e"
      from unquiet_step_mtxCh [OF e this] show False using snoc.prems(2) by simp
    qed
    have "inv_curCh s1" using run_mtxCh_reach [OF r assms(1)] reach_mtxCh_inv by (simp add: inv_mtxCh_def)
    from chosen_step_mtxCh [OF this e Some q] have w: "w = v" using snoc.prems(2) by simp
    from snoc.IH [OF r] Some w obtain es1 ev es2 sa sb x c where
      d: "es = es1 @ ev # es2" "run_mtxCh es1 s = Some sa" "pc sa t = W_select x c"
        "event_mtxCh ev sa = Some sb" "run_mtxCh es2 sb = Some s1" "list_all (quiet t) es2"
        "(ev = WakeCh t \<or> (\<exists>g. ev = Handoff g t)) \<and> v = None \<or>
          ev = WakeCtx t \<and> v = ctx_err sa x \<and> v \<noteq> None"
      by blast
    have "run_mtxCh (es2 @ [e]) sb = Some s2" using d(5) e by (simp add: run_mtxCh_append)
    with d q show ?thesis
      by (intro exI [of _ es1] exI [of _ ev] exI [of _ "es2 @ [e]"] exI [of _ sa] exI [of _ sb]
          exI [of _ x] exI [of _ c]) simp
  qed
qed

text \<open>
  C3.  In every reachable state \<open>s\<close> of the second listing and \<open>s'\<close> of the first:
  \<^item> When a goroutine \<open>t\<close> stands at the select of WaitContext and an event it takes part
    in happens, the event is a wake through the channel (a token or the closed channel; in
    the first listing also a token handed over by a signaller) or the case
    \<open><-ctx.Done()\<close> of a context that is done.  From then on, whatever the other goroutines
    do, the call carries the value it is going to return: nil after a wake through the
    channel, \<open>ctx.Err()\<close> after a cancellation, which is not nil.  So when the call has
    returned, it returned nil exactly if it was woken through the channel.  The goroutine
    never panics on the way.
  \<^item> Conversely, when a goroutine that has no result in \<open>s\<close> carries or has returned the
    result \<open>v\<close> after the run \<open>es\<close>, then \<open>es\<close> contains an event of its select, which it
    took standing at that select and after which it made no new call; \<open>v\<close> is nil when the
    event is a wake through the channel, and \<open>ctx.Err()\<close>, not nil, when it is the
    cancellation case.  No call of WaitContext comes by a result in another way.

  (A context that is done has a non-nil \<open>Err()\<close>, as the contract of \<open>context.Context\<close>
  says.)
\<close>

theorem WaitContext_result:
  fixes s :: state_mtx and s' :: state_mtxCh
  assumes "reach_mtx s" and "reach_mtxCh s'"
  shows "(\<forall>t x c ev s1 es s2.
       pc s t = W_select x c \<and> event_mtx ev s = Some s1 \<and> involves t ev \<and>
       run_mtx es s1 = Some s2 \<and> list_all (quiet t) es \<longrightarrow>
       (ev = WakeCh t \<or> ev = WakeCtx t \<and> ctx_err s x \<noteq> None) \<and>
       chosen (pc s2 t) = Some (if ev = WakeCtx t then ctx_err s x else None) \<and>
       (\<forall>v. pc s2 t = Returned (WaitRet v) \<longrightarrow> (v = None) = (ev = WakeCh t)) \<and>
       \<not> panicked (pc s2 t)) \<and>
    (\<forall>t es s2 v.
       chosen (pc s t) = None \<and> run_mtx es s = Some s2 \<and> chosen (pc s2 t) = Some v \<longrightarrow>
       (\<exists>es1 ev es2 sa sb x c. es = es1 @ ev # es2 \<and> run_mtx es1 s = Some sa \<and>
          pc sa t = W_select x c \<and> event_mtx ev sa = Some sb \<and> run_mtx es2 sb = Some s2 \<and>
          list_all (quiet t) es2 \<and>
          (ev = WakeCh t \<and> v = None \<or> ev = WakeCtx t \<and> v = ctx_err sa x \<and> v \<noteq> None))) \<and>
    (\<forall>t x c ev s1 es s2.
       pc s' t = W_select x c \<and> event_mtxCh ev s' = Some s1 \<and> involves t ev \<and>
       run_mtxCh es s1 = Some s2 \<and> list_all (quiet t) es \<longrightarrow>
       (ev = WakeCh t \<or> (\<exists>g. ev = Handoff g t) \<or> ev = WakeCtx t \<and> ctx_err s' x \<noteq> None) \<and>
       chosen (pc s2 t) = Some (if ev = WakeCtx t then ctx_err s' x else None) \<and>
       (\<forall>v. pc s2 t = Returned (WaitRet v) \<longrightarrow> (v = None) = (ev \<noteq> WakeCtx t)) \<and>
       \<not> panicked (pc s2 t)) \<and>
    (\<forall>t es s2 v.
       chosen (pc s' t) = None \<and> run_mtxCh es s' = Some s2 \<and> chosen (pc s2 t) = Some v \<longrightarrow>
       (\<exists>es1 ev es2 sa sb x c. es = es1 @ ev # es2 \<and> run_mtxCh es1 s' = Some sa \<and>
          pc sa t = W_select x c \<and> event_mtxCh ev sa = Some sb \<and> run_mtxCh es2 sb = Some s2 \<and>
          list_all (quiet t) es2 \<and>
          ((ev = WakeCh t \<or> (\<exists>g. ev = Handoff g t)) \<and> v = None \<or>
           ev = WakeCtx t \<and> v = ctx_err sa x \<and> v \<noteq> None)))"
proof -
  have f: "\<forall>t x c ev s1 es s2.
       pc s t = W_select x c \<and> event_mtx ev s = Some s1 \<and> involves t ev \<and>
       run_mtx es s1 = Some s2 \<and> list_all (quiet t) es \<longrightarrow>
       (ev = WakeCh t \<or> ev = WakeCtx t \<and> ctx_err s x \<noteq> None) \<and>
       chosen (pc s2 t) = Some (if ev = WakeCtx t then ctx_err s x else None) \<and>
       (\<forall>v. pc s2 t = Returned (WaitRet v) \<longrightarrow> (v = None) = (ev = WakeCh t)) \<and>
       \<not> panicked (pc s2 t)"
  proof (intro allI impI, elim conjE)
    fix t x c ev s1 es s2
    assume h: "pc s t = W_select x c" "event_mtx ev s = Some s1" "involves t ev"
      "run_mtx es s1 = Some s2" "list_all (quiet t) es"
    have r1: "reach_mtx s1" using assms(1) h(2) by (rule reach_mtx.reach_step)
    from select_events_mtx [OF h(1,2,3)]
    have a: "ev = WakeCh t \<or> ev = WakeCtx t \<and> ctx_err s x \<noteq> None"
      and b: "chosen (pc s1 t) = Some (if ev = WakeCtx t then ctx_err s x else None)"
      by auto
    from chosen_run_mtx [OF h(4) r1 b h(5)]
    have c: "chosen (pc s2 t) = Some (if ev = WakeCtx t then ctx_err s x else None)" .
    have d: "\<forall>v. pc s2 t = Returned (WaitRet v) \<longrightarrow> (v = None) = (ev = WakeCh t)"
      using a c by auto
    have e: "\<not> panicked (pc s2 t)" using c by (cases "pc s2 t") auto
    from a c d e
    show "(ev = WakeCh t \<or> ev = WakeCtx t \<and> ctx_err s x \<noteq> None) \<and>
       chosen (pc s2 t) = Some (if ev = WakeCtx t then ctx_err s x else None) \<and>
       (\<forall>v. pc s2 t = Returned (WaitRet v) \<longrightarrow> (v = None) = (ev = WakeCh t)) \<and>
       \<not> panicked (pc s2 t)"
      by (intro conjI)
  qed
  have g: "\<forall>t es s2 v.
       chosen (pc s t) = None \<and> run_mtx es s = Some s2 \<and> chosen (pc s2 t) = Some v \<longrightarrow>
       (\<exists>es1 ev es2 sa sb x c. es = es1 @ ev # es2 \<and> run_mtx es1 s = Some sa \<and>
          pc sa t = W_select x c \<and> event_mtx ev sa = Some sb \<and> run_mtx es2 sb = Some s2 \<and>
          list_all (quiet t) es2 \<and>
          (ev = WakeCh t \<and> v = None \<or> ev = WakeCtx t \<and> v = ctx_err sa x \<and> v \<noteq> None))"
  proof (intro allI impI, elim conjE)
    fix t es s2 v
    assume "chosen (pc s t) = None" and "run_mtx es s = Some s2" and "chosen (pc s2 t) = Some v"
    then show "\<exists>es1 ev es2 sa sb x c. es = es1 @ ev # es2 \<and> run_mtx es1 s = Some sa \<and>
          pc sa t = W_select x c \<and> event_mtx ev sa = Some sb \<and> run_mtx es2 sb = Some s2 \<and>
          list_all (quiet t) es2 \<and>
          (ev = WakeCh t \<and> v = None \<or> ev = WakeCtx t \<and> v = ctx_err sa x \<and> v \<noteq> None)"
      by (rule decided_run_mtx [OF assms(1)])
  qed
  have f': "\<forall>t x c ev s1 es s2.
       pc s' t = W_select x c \<and> event_mtxCh ev s' = Some s1 \<and> involves t ev \<and>
       run_mtxCh es s1 = Some s2 \<and> list_all (quiet t) es \<longrightarrow>
       (ev = WakeCh t \<or> (\<exists>g. ev = Handoff g t) \<or> ev = WakeCtx t \<and> ctx_err s' x \<noteq> None) \<and>
       chosen (pc s2 t) = Some (if ev = WakeCtx t then ctx_err s' x else None) \<and>
       (\<forall>v. pc s2 t = Returned (WaitRet v) \<longrightarrow> (v = None) = (ev \<noteq> WakeCtx t)) \<and>
       \<not> panicked (pc s2 t)"
  proof (intro allI impI, elim conjE)
    fix t x c ev s1 es s2
    assume h: "pc s' t = W_select x c" "event_mtxCh ev s' = Some s1" "involves t ev"
      "run_mtxCh es s1 = Some s2" "list_all (quiet t) es"
    have r1: "reach_mtxCh s1" using assms(2) h(2) by (rule reach_mtxCh.reachCh_step)
    from select_events_mtxCh [OF h(1,2,3)]
    have a: "ev = WakeCh t \<or> (\<exists>g. ev = Handoff g t) \<or> ev = WakeCtx t \<and> ctx_err s' x \<noteq> None"
      and b: "chosen (pc s1 t) = Some (if ev = WakeCtx t then ctx_err s' x else None)"
      by auto
    from chosen_run_mtxCh [OF h(4) r1 b h(5)]
    have c: "chosen (pc s2 t) = Some (if ev = WakeCtx t then ctx_err s' x else None)" .
    have d: "\<forall>v. pc s2 t = Returned (WaitRet v) \<longrightarrow> (v = None) = (ev \<noteq> WakeCtx t)"
      using a c by auto
    have e: "\<not> panicked (pc s2 t)" using c by (cases "pc s2 t") auto
    from a c d e
    show "(ev = WakeCh t \<or> (\<exists>g. ev = Handoff g t) \<or> ev = WakeCtx t \<and> ctx_err s' x \<noteq> None) \<and>
       chosen (pc s2 t) = Some (if ev = WakeCtx t then ctx_err s' x else None) \<and>
       (\<forall>v. pc s2 t = Returned (WaitRet v) \<longrightarrow> (v = None) = (ev \<noteq> WakeCtx t)) \<and>
       \<not> panicked (pc s2 t)"
      by (intro conjI)
  qed
  have g': "\<forall>t es s2 v.
       chosen (pc s' t) = None \<and> run_mtxCh es s' = Some s2 \<and> chosen (pc s2 t) = Some v \<longrightarrow>
       (\<exists>es1 ev es2 sa sb x c. es = es1 @ ev # es2 \<and> run_mtxCh es1 s' = Some sa \<and>
          pc sa t = W_select x c \<and> event_mtxCh ev sa = Some sb \<and> run_mtxCh es2 sb = Some s2 \<and>
          list_all (quiet t) es2 \<and>
          ((ev = WakeCh t \<or> (\<exists>g. ev = Handoff g t)) \<and> v = None \<or>
           ev = WakeCtx t \<and> v = ctx_err sa x \<and> v \<noteq> None))"
  proof (intro allI impI, elim conjE)
    fix t es s2 v
    assume "chosen (pc s' t) = None" and "run_mtxCh es s' = Some s2"
      and "chosen (pc s2 t) = Some v"
    then show "\<exists>es1 ev es2 sa sb x c. es = es1 @ ev # es2 \<and> run_mtxCh es1 s' = Some sa \<and>
          pc sa t = W_select x c \<and> event_mtxCh ev sa = Some sb \<and> run_mtxCh es2 sb = Some s2 \<and>
          list_all (quiet t) es2 \<and>
          ((ev = WakeCh t \<or> (\<exists>g. ev = Handoff g t)) \<and> v = None \<or>
           ev = WakeCtx t \<and> v = ctx_err sa x \<and> v \<noteq> None)"
      by (rule decided_run_mtxCh [OF assms(2)])
  qed
  show ?thesis using f g f' g' by (intro conjI) assumption+
qed

text \<open>Second listing: a waiter woken by Signal returns nil, and the run from NewCond to its
  return contains the wake at its select.  First listing: a waiter whose context was
  cancelled returns \<open>context.Canceled\<close>.\<close>

theorem WaitContext_result_witness:
  "pc (the (run_mtx (to_select @ call1 OpSignal @ [WakeCh 0] @ to_return) (NewCond_mtx 16 2))) 0
     = Returned (WaitRet None) \<and>
   pc (the (run_mtxCh (to_select @ [Cancel 0 Canceled, WakeCtx 0] @ to_return) (NewCond_mtxCh 16 2))) 0
     = Returned (WaitRet (Some Canceled)) \<and>
   (\<exists>es1 es2 sa x c. to_select @ call1 OpSignal @ [WakeCh 0] @ to_return = es1 @ WakeCh 0 # es2 \<and>
      run_mtx es1 (NewCond_mtx 16 2) = Some sa \<and> pc sa 0 = W_select x c)"
proof -
  define s where "s = the (run_mtx (to_select @ call1 OpSignal) (NewCond_mtx 16 2))"
  define s1 where "s1 = the (event_mtx (WakeCh 0) s)"
  define s2 where "s2 = the (run_mtx to_return s1)"
  define s' where "s' = the (run_mtxCh (to_select @ [Cancel 0 Canceled]) (NewCond_mtxCh 16 2))"
  define s1' where "s1' = the (event_mtxCh (WakeCtx 0) s')"
  define s2' where "s2' = the (run_mtxCh to_return s1')"
  define s3 where
    "s3 = the (run_mtx (to_select @ call1 OpSignal @ [WakeCh 0] @ to_return) (NewCond_mtx 16 2))"
  have "run_mtx (to_select @ call1 OpSignal) (NewCond_mtx 16 2) \<noteq> None"
    by (simp add: eval_mtx)
  then have 1: "reach_mtx s" unfolding s_def by (intro reach_mtx_run) simp_all
  have 2: "pc s 0 = W_select (Ctx 0) (Some 0)" by (simp add: s_def eval_mtx)
  have 3: "event_mtx (WakeCh 0) s = Some s1" by (simp add: s1_def s_def eval_mtx)
  have 4: "run_mtx to_return s1 = Some s2" by (simp add: s2_def s1_def s_def eval_mtx)
  have "run_mtxCh (to_select @ [Cancel 0 Canceled]) (NewCond_mtxCh 16 2) \<noteq> None"
    by (simp add: eval_mtxCh)
  then have 5: "reach_mtxCh s'" unfolding s'_def by (intro reach_mtxCh_run) simp_all
  have 6: "pc s' 0 = W_select (Ctx 0) (Some 1)" by (simp add: s'_def eval_mtxCh)
  have 7: "event_mtxCh (WakeCtx 0) s' = Some s1'" by (simp add: s1'_def s'_def eval_mtxCh)
  have 8: "run_mtxCh to_return s1' = Some s2'" by (simp add: s2'_def s1'_def s'_def eval_mtxCh)
  have 9: "pc s2 0 = Returned (WaitRet None)" by (simp add: s2_def s1_def s_def eval_mtx)
  have 10: "pc s2' 0 = Returned (WaitRet (Some Canceled))"
    by (simp add: s2'_def s1'_def s'_def eval_mtxCh)
  have 11: "the (run_mtx (to_select @ call1 OpSignal @ [WakeCh 0] @ to_return) (NewCond_mtx 16 2)) = s2"
    by (simp add: s2_def s1_def s_def eval_mtx)
  have 12: "the (run_mtxCh (to_select @ [Cancel 0 Canceled, WakeCtx 0] @ to_return) (NewCond_mtxCh 16 2)) = s2'"
    by (simp add: s2'_def s1'_def s'_def eval_mtxCh)
  have q: "involves 0 (WakeCh 0)" "involves 0 (WakeCtx 0)" "list_all (quiet 0) to_return"
    by (simp_all add: to_return_def)
  note T = WaitContext_result [OF 1 5]
  from T [THEN conjunct1, rule_format, OF conjI [OF 2 conjI [OF 3 conjI [OF q(1) conjI [OF 4 q(3)]]]]]
  have 13: "chosen (pc s2 0) = Some None" by simp
  from T [THEN conjunct2, THEN conjunct2, THEN conjunct1, rule_format,
      OF conjI [OF 6 conjI [OF 7 conjI [OF q(2) conjI [OF 8 q(3)]]]]]
  have 14: "chosen (pc s2' 0) = Some (ctx_err s' (Ctx 0))" by simp
  have 15: "reach_mtx (NewCond_mtx 16 2)" by (rule reach_mtx.reach_init) simp
  have 16: "chosen (pc (NewCond_mtx 16 2) 0) = None" by (simp add: NewCond_mtx_def)
  have 17: "run_mtx (to_select @ call1 OpSignal @ [WakeCh 0] @ to_return) (NewCond_mtx 16 2) = Some s3"
    by (simp add: s3_def eval_mtx)
  have 18: "chosen (pc s3 0) = Some None" using 9 11 by (simp add: s3_def)
  from WaitContext_result [OF 15 5, THEN conjunct2, THEN conjunct1, rule_format,
      OF conjI [OF 16 conjI [OF 17 18]]]
  obtain es1 ev es2 sa x c where
    "to_select @ call1 OpSignal @ [WakeCh 0] @ to_return = es1 @ ev # es2"
    and "run_mtx es1 (NewCond_mtx 16 2) = Some sa" and "pc sa 0 = W_select x c"
    and "ev = WakeCh 0"
    by auto
  then have 19: "\<exists>es1 es2 sa x c.
      to_select @ call1 OpSignal @ [WakeCh 0] @ to_return = es1 @ WakeCh 0 # es2 \<and>
      run_mtx es1 (NewCond_mtx 16 2) = Some sa \<and> pc sa 0 = W_select x c"
    by blast
  have 20: "pc (the (run_mtx (to_select @ call1 OpSignal @ [WakeCh 0] @ to_return) (NewCond_mtx 16 2))) 0
     = Returned (WaitRet None)"
    using 9 11 13 by simp
  have 21: "pc (the (run_mtxCh (to_select @ [Cancel 0 Canceled, WakeCtx 0] @ to_return) (NewCond_mtxCh 16 2))) 0
     = Returned (WaitRet (Some Canceled))"
    using 10 12 14 by simp
  from 20 21 19 show ?thesis by (intro conjI)
qed

subsection \<open>C1: Broadcast wakes every registered waiter\<close>

lemma closed_step_mtx:
  assumes "event_mtx e s = Some s'" and "r < nchans s" and "closed (chans s r)"
  shows "closed (chans s' r) \<and> r < nchans s'"
proof (cases e)
  case (Tau u)
  then show ?thesis using assms
    by (cases "pc s u") (auto simp: op_defs mtx_defs Let_def split: if_splits sum.splits option.splits)
next
  case (Invoke u m)
  then show ?thesis using assms by (cases m) (auto simp: op_defs split: if_splits)
next
  case (WakeCh u)
  then show ?thesis using assms by (auto simp: goto_def recv_def dest!: wake_ch_mtxD split: if_splits)
next
  case (WakeCtx u)
  then show ?thesis using assms by (auto simp: goto_def dest!: wake_ctxD split: if_splits)
qed (use assms in \<open>auto simp: op_defs recover_def split: if_splits pc.splits\<close>)

lemma closed_run_mtx:
  assumes "run_mtx es s = Some s'" and "r < nchans s" and "closed (chans s r)"
  shows "closed (chans s' r) \<and> r < nchans s'"
  using assms
proof (induction es arbitrary: s)
  case Nil
  then show ?case by simp
next
  case (Cons e es)
  from Cons.prems(1) obtain s1 where e: "event_mtx e s = Some s1" and r: "run_mtx es s1 = Some s'"
    by (auto split: option.splits)
  from closed_step_mtx [OF e Cons.prems(2,3)] Cons.IH [OF r] show ?case by simp
qed

text \<open>The close in Broadcast reaches every waiter that has registered.\<close>

lemma Broadcast_closes_captured:
  assumes "reach_mtx s" and "pc s b = B_body" and "event_mtx (Tau b) s = Some s1"
    and "captured (pc s t) = Some r"
  shows "closed (chans s1 r) \<and> r < nchans s1"
proof -
  have i: "inv_mtx s" using assms(1) by (rule reach_mtx_inv)
  then have cur: "inv_cur s" and capt: "inv_capt s" and cnt: "inv_count s" and rng: "inv_range s"
    by (simp_all add: inv_mtx_def)
  have r: "r < nchans s" using capt assms(4) by (auto simp: inv_capt_def)
  have "pc s t \<noteq> Idle" using assms(4) by auto
  then have t: "t < nthreads s" using rng by (auto simp: inv_range_def not_le [symmetric])
  have "counted (pc s t)" using assms(4) by (cases "pc s t") auto
  with t have "0 < count_pc counted (pc s) (nthreads s)" by (rule count_pc_pos)
  then have w: "0 < waiters s" using cnt by (simp add: inv_count_def)
  from r cur obtain c where c: "ch s = Some c" "Suc c = nchans s" "\<not> closed (chans s c)"
    by (cases "ch s") (auto simp: inv_cur_def)
  have old: "closed (chans s r)" if "r \<noteq> c"
    using that r c cur by (auto simp: inv_cur_def)
  show ?thesis
    using assms(2,3) w c r old
    by (cases "r = c") (auto simp: op_defs mtx_defs split: if_splits)
qed

text \<open>A registration captures the current channel, which is open.\<close>

lemma register_captures_open:
  assumes "inv_cur s" and "pc s t = W_reg x" and "event_mtx (Tau t) s = Some s3"
  shows "\<exists>r'. pc s3 t = W_unlock x (Some r') \<and> \<not> closed (chans s3 r') \<and> ch s3 = Some r'"
  using assms by (auto simp: inv_cur_def op_defs mtx_defs Let_def split: if_splits)

text \<open>
  C1 (second listing).  Goroutine \<open>b\<close> runs the body of Broadcast in a reachable state
  \<open>s\<close>, giving \<open>s1\<close>; \<open>s2\<close> is any state the program reaches from there.  No other
  goroutine stands between \<open>c.mtx.Lock()\<close> and \<open>c.mtx.Unlock()\<close> at that moment, so the
  waiters that registered before Broadcast took the mutex and have not left their select
  are the goroutines that hold a captured channel in \<open>s\<close>, however many they are.  For
  every one of them the captured channel is closed in \<open>s2\<close>; if it still stands at its
  select there, its channel case is enabled and makes the call return nil, and unless its
  context is done its cancellation case is not enabled.  A goroutine that registers in
  \<open>s2\<close>, after the Broadcast, captures an open channel that none of those waiters holds:
  the close of this Broadcast does not wake it.
\<close>

theorem Broadcast_wakes_registered:
  assumes "reach_mtx s" and "pc s b = B_body" and "event_mtx (Tau b) s = Some s1"
    and "run_mtx es s1 = Some s2"
  shows "(\<forall>t. crit_mtx (pc s t) \<longrightarrow> t = b) \<and>
    (\<forall>t r. captured (pc s t) = Some r \<longrightarrow> closed (chans s2 r)) \<and>
    (\<forall>t x r. captured (pc s t) = Some r \<and> pc s2 t = W_select x (Some r) \<longrightarrow>
       (\<exists>s3. event_mtx (WakeCh t) s2 = Some s3 \<and> chosen (pc s3 t) = Some None) \<and>
       (ctx_err s2 x = None \<longrightarrow> event_mtx (WakeCtx t) s2 = None)) \<and>
    (\<forall>t x s3. pc s2 t = W_reg x \<and> event_mtx (Tau t) s2 = Some s3 \<longrightarrow>
       (\<exists>r'. pc s3 t = W_unlock x (Some r') \<and> \<not> closed (chans s3 r') \<and>
          (\<forall>u. captured (pc s u) \<noteq> Some r')))"
proof -
  have r1: "reach_mtx s1" using assms(1,3) by (rule reach_mtx.reach_step)
  have r2: "reach_mtx s2" using assms(4) r1 by (rule run_mtx_reach)
  have cl: "closed (chans s2 r) \<and> r < nchans s2" if "captured (pc s t) = Some r" for t r
    using closed_run_mtx [OF assms(4)] Broadcast_closes_captured [OF assms(1,2,3) that] by simp
  have a: "\<forall>t r. captured (pc s t) = Some r \<longrightarrow> closed (chans s2 r)"
    using cl by blast
  have b: "(\<exists>s3. event_mtx (WakeCh t) s2 = Some s3 \<and> chosen (pc s3 t) = Some None) \<and>
       (ctx_err s2 x = None \<longrightarrow> event_mtx (WakeCtx t) s2 = None)"
    if "captured (pc s t) = Some r" and "pc s2 t = W_select x (Some r)" for t x r
  proof -
    have "pc s2 t \<noteq> Idle" using that(2) by simp
    then have "t < nthreads s2"
      using r2 reach_mtx_inv by (auto simp: inv_mtx_def inv_range_def not_le [symmetric])
    then show ?thesis using cl [OF that(1)] that(2)
      by (simp add: wake_ch_mtx_def wake_ctx_def can_recv_def goto_def)
  qed
  have c: "\<exists>r'. pc s3 t = W_unlock x (Some r') \<and> \<not> closed (chans s3 r') \<and>
          (\<forall>u. captured (pc s u) \<noteq> Some r')"
    if "pc s2 t = W_reg x" and "event_mtx (Tau t) s2 = Some s3" for t x s3
  proof -
    have "inv_cur s2" using r2 reach_mtx_inv by (simp add: inv_mtx_def)
    from register_captures_open [OF this that]
    obtain r' where r': "pc s3 t = W_unlock x (Some r')" "\<not> closed (chans s3 r')" by blast
    have "captured (pc s u) \<noteq> Some r'" for u
    proof
      assume "captured (pc s u) = Some r'"
      from cl [OF this] closed_step_mtx [OF that(2)] have "closed (chans s3 r')" by simp
      with r'(2) show False by simp
    qed
    with r' show ?thesis by blast
  qed
  have "inv_owner s" using assms(1) reach_mtx_inv by (simp add: inv_mtx_def)
  then have o: "crit_mtx (pc s t) \<longrightarrow> mtx s = Some t" for t
    by (simp add: inv_owner_def)
  from o [of b] assms(2) have "mtx s = Some b" by simp
  with o have d: "\<forall>t. crit_mtx (pc s t) \<longrightarrow> t = b" by auto
  from a b c d show ?thesis by blast
qed

text \<open>Two waiters at their selects and a Broadcast that has run to its end: channel 0 is
  closed and both waiters can wake through it.\<close>

theorem Broadcast_wakes_registered_witness:
  "closed (chans (the (run_mtx ((two_waiters @ [Tau 1]) @ [Tau 1]) (NewCond_mtx 16 3))) 0) \<and>
   event_mtx (WakeCh 0) (the (run_mtx ((two_waiters @ [Tau 1]) @ [Tau 1]) (NewCond_mtx 16 3))) \<noteq> None \<and>
   event_mtx (WakeCh 2) (the (run_mtx ((two_waiters @ [Tau 1]) @ [Tau 1]) (NewCond_mtx 16 3))) \<noteq> None"
proof -
  define s where "s = the (run_mtx two_waiters (NewCond_mtx 16 3))"
  define s1 where "s1 = the (run_mtx (two_waiters @ [Tau 1]) (NewCond_mtx 16 3))"
  define s2 where "s2 = the (run_mtx ((two_waiters @ [Tau 1]) @ [Tau 1]) (NewCond_mtx 16 3))"
  have n: "run_mtx ((two_waiters @ [Tau 1]) @ [Tau 1]) (NewCond_mtx 16 3) \<noteq> None"
    by (simp add: eval_mtx two_waiters_def)
  then have n1: "run_mtx (two_waiters @ [Tau 1]) (NewCond_mtx 16 3) \<noteq> None"
    by (rule run_mtx_prefix)
  then have "run_mtx two_waiters (NewCond_mtx 16 3) \<noteq> None"
    by (rule run_mtx_prefix)
  then have 1: "reach_mtx s" unfolding s_def by (intro reach_mtx_run) simp_all
  have 2: "pc s 1 = B_body" by (simp add: s_def eval_mtx two_waiters_def)
  have 3: "event_mtx (Tau 1) s = Some s1"
    using run_mtx_the [OF n1] by (simp only: run_mtx_single s_def s1_def)
  have 4: "run_mtx [Tau 1] s1 = Some s2"
    unfolding s1_def s2_def using n by (rule run_mtx_the)
  have 5: "captured (pc s 0) = Some 0" "captured (pc s 2) = Some 0"
    by (simp_all add: s_def eval_mtx two_waiters_def)
  have 6: "pc s2 0 = W_select (Ctx 0) (Some 0)" "pc s2 2 = W_select Background (Some 0)"
    by (simp_all add: s2_def eval_mtx two_waiters_def)
  note T = Broadcast_wakes_registered [OF 1 2 3 4]
  have a: "closed (chans s2 0)"
    using T [THEN conjunct2, THEN conjunct1, rule_format, OF 5(1)] .
  note W = T [THEN conjunct2, THEN conjunct2, THEN conjunct1, rule_format, THEN conjunct1]
  have b: "event_mtx (WakeCh 0) s2 \<noteq> None"
    using W [OF conjI [OF 5(1) 6(1)]] by (elim exE conjE) simp
  have c: "event_mtx (WakeCh 2) s2 \<noteq> None"
    using W [OF conjI [OF 5(2) 6(2)]] by (elim exE conjE) simp
  from a b c show ?thesis unfolding s2_def by (intro conjI)
qed

subsection \<open>C6: the drain of an unconsumed token and what wakes a waiter\<close>












subsection \<open>C4: the delivery of Signal\<close>

lemma Signal_select_events:
  assumes "inv_curCh s" and "pc s t = S_select" and "involves t ev" and "event_mtxCh ev s = Some s2"
  shows "\<exists>w. ev = Handoff t w \<or> ev = Delegate w t"
proof (cases ev)
  case (Tau u)
  then show ?thesis using assms by (auto simp: inv_curCh_def tau_mtxCh_def split: if_splits)
next
  case (Invoke u m)
  then show ?thesis using assms by (auto simp: op_defs split: if_splits)
next
  case (WakeCh u)
  then show ?thesis using assms by (auto dest!: wake_ch_mtxChD split: if_splits)
next
  case (WakeCtx u)
  then show ?thesis using assms by (auto dest!: wake_ctxD split: if_splits)
next
  case (Handoff g w)
  then show ?thesis using assms by (auto dest!: handoffD split: if_splits)
next
  case (Delegate w g)
  then show ?thesis using assms by (auto dest!: delegateD split: if_splits)
qed (use assms in \<open>auto simp: op_defs recover_def split: if_splits pc.splits\<close>)

text \<open>
  C4, as amended.  Second listing, in every reachable state: with \<open>waiters\<close> at 0 the body
  of Signal changes nothing; with a token pending in the current channel it changes
  nothing; in every case it raises no fault, leaves \<open>waiters\<close> and \<open>c.ch\<close> as they are
  and leaves at most one token in every channel; and a goroutine at the body of Signal can
  always run it, so the delivery does not block.  First listing, in every reachable state:
  with \<open>waiters\<close> at 0 Signal goes from its loop condition to the unlock and changes
  nothing; no channel but \<open>mtxCh\<close> ever holds an element, so no token is ever pending; but
  with waiters the send of Signal is a select without default: the signaller cannot run
  alone, and the only events it takes part in are the handoff of the token to a waiter at
  its select and the receipt of a delegated decrement.
\<close>

theorem Signal_delivery:
  fixes s :: state_mtx and s' :: state_mtxCh
  assumes "reach_mtx s" and "reach_mtxCh s'"
  shows "(waiters s = 0 \<longrightarrow> Signal_body_mtx s = Inr s) \<and>
    (\<forall>r. ch s = Some r \<and> buf (chans s r) = 1 \<longrightarrow> Signal_body_mtx s = Inr s) \<and>
    (\<exists>s1. Signal_body_mtx s = Inr s1 \<and> waiters s1 = waiters s \<and> ch s1 = ch s \<and>
       nchans s1 = nchans s \<and> (\<forall>i. i < nchans s1 \<longrightarrow> buf (chans s1 i) \<le> 1)) \<and>
    (\<forall>t. t < nthreads s \<and> pc s t = S_body \<longrightarrow> event_mtx (Tau t) s \<noteq> None) \<and>
    (\<forall>t. t < nthreads s' \<and> pc s' t = S_body \<and> waiters s' = 0 \<longrightarrow>
       event_mtxCh (Tau t) s' = Some (goto t S_unlock s')) \<and>
    (\<forall>i. i \<noteq> 0 \<longrightarrow> buf (chans s' i) = 0) \<and>
    (\<forall>t ev s2. pc s' t = S_select \<and> involves t ev \<and> event_mtxCh ev s' = Some s2 \<longrightarrow>
       event_mtxCh (Tau t) s' = None \<and> (\<exists>w. ev = Handoff t w \<or> ev = Delegate w t))"
proof -
  have i: "inv_mtx s" using assms(1) by (rule reach_mtx_inv)
  have i': "inv_mtxCh s'" using assms(2) by (rule reach_mtxCh_inv)
  have cur: "\<forall>r. ch s = Some r \<longrightarrow> r < nchans s \<and> \<not> closed (chans s r)"
    using i by (auto simp: inv_mtx_def inv_cur_def)
  have cap: "\<forall>i. i < nchans s \<longrightarrow> cap (chans s i) = 1 \<and> buf (chans s i) \<le> 1"
    using i by (simp add: inv_mtx_def inv_cap_def)
  have a: "waiters s = 0 \<longrightarrow> Signal_body_mtx s = Inr s"
    by (simp add: Signal_body_mtx_def)
  have b: "\<forall>r. ch s = Some r \<and> buf (chans s r) = 1 \<longrightarrow> Signal_body_mtx s = Inr s"
    using cur cap by (auto simp: Signal_body_mtx_def try_send_def)
  have c: "\<exists>s1. Signal_body_mtx s = Inr s1 \<and> waiters s1 = waiters s \<and> ch s1 = ch s \<and>
       nchans s1 = nchans s \<and> (\<forall>i. i < nchans s1 \<longrightarrow> buf (chans s1 i) \<le> 1)"
    using cur cap by (cases "ch s") (auto simp: Signal_body_mtx_def try_send_def)
  have d: "\<forall>t. t < nthreads s \<and> pc s t = S_body \<longrightarrow> event_mtx (Tau t) s \<noteq> None"
    by (simp add: tau_mtx_def)
  have e: "\<forall>t. t < nthreads s' \<and> pc s' t = S_body \<and> waiters s' = 0 \<longrightarrow>
       event_mtxCh (Tau t) s' = Some (goto t S_unlock s')"
    by (simp add: tau_mtxCh_def)
  have f: "\<forall>i. i \<noteq> 0 \<longrightarrow> buf (chans s' i) = 0"
    using i' by (simp add: inv_mtxCh_def inv_capCh_def)
  have c': "inv_curCh s'" using i' by (simp add: inv_mtxCh_def)
  have g: "\<forall>t ev s2. pc s' t = S_select \<and> involves t ev \<and> event_mtxCh ev s' = Some s2 \<longrightarrow>
       event_mtxCh (Tau t) s' = None \<and> (\<exists>w. ev = Handoff t w \<or> ev = Delegate w t)"
  proof (intro allI impI, elim conjE)
    fix t ev s2
    assume p: "pc s' t = S_select" and "involves t ev" and "event_mtxCh ev s' = Some s2"
    from Signal_select_events [OF c' this]
    have "\<exists>w. ev = Handoff t w \<or> ev = Delegate w t" .
    moreover have "event_mtxCh (Tau t) s' = None"
      using c' p by (auto simp: inv_curCh_def tau_mtxCh_def)
    ultimately show "event_mtxCh (Tau t) s' = None \<and> (\<exists>w. ev = Handoff t w \<or> ev = Delegate w t)"
      by simp
  qed
  show ?thesis using a b c d e f g by (intro conjI) assumption+
qed

text \<open>First listing: one waiter has registered and has not reached its select yet; Signal
  finds \<open>waiters\<close> at 1 and stands at its select; no event goroutine 1 takes part in is
  enabled.  The delivery attempt blocks.\<close>

theorem Signal_delivery_counterexample:
  "reach_mtxCh (the (run_mtxCh signal_waits (NewCond_mtxCh 16 2))) \<and>
   pc (the (run_mtxCh signal_waits (NewCond_mtxCh 16 2))) 1 = S_select \<and>
   waiters (the (run_mtxCh signal_waits (NewCond_mtxCh 16 2))) = 1 \<and>
   \<not> (\<exists>ev. involves 1 ev \<and> event_mtxCh ev (the (run_mtxCh signal_waits (NewCond_mtxCh 16 2))) \<noteq> None)"
proof -
  define y where "y = the (run_mtxCh signal_waits (NewCond_mtxCh 16 2))"
  have "run_mtxCh signal_waits (NewCond_mtxCh 16 2) \<noteq> None"
    by (simp add: eval_mtxCh signal_waits_def)
  then have 1: "reach_mtxCh y" unfolding y_def by (intro reach_mtxCh_run) simp_all
  have 2: "pc y 1 = S_select" by (simp add: y_def eval_mtxCh signal_waits_def)
  have 3: "waiters y = 1" by (simp add: y_def eval_mtxCh signal_waits_def)
  have 4: "pc y 0 = W_Lunlock (Ctx 0) (Some 1)" by (simp add: y_def eval_mtxCh signal_waits_def)
  have 5: "nthreads y = 2" by (simp add: y_def eval_mtxCh signal_waits_def)
  have 6: "ch y = Some 1" "\<not> closed (chans y 1)" by (simp_all add: y_def eval_mtxCh signal_waits_def)
  have 7: "event_mtxCh ev y = None" if "involves 1 ev" for ev
  proof (cases ev)
    case (Handoff g w)
    show ?thesis
    proof (cases "g < 2 \<and> w < 2 \<and> g \<noteq> w")
      case False
      then show ?thesis using Handoff 5 by auto
    next
      case True
      with that Handoff have "g = 1 \<and> w = 0 \<or> g = 0 \<and> w = 1" by auto
      then show ?thesis using Handoff 2 4 5 by (auto simp: handoff_def)
    qed
  next
    case (Delegate w g)
    show ?thesis
    proof (cases "g < 2 \<and> w < 2 \<and> g \<noteq> w")
      case False
      then show ?thesis using Delegate 5 by auto
    next
      case True
      with that Delegate have "g = 1 \<and> w = 0 \<or> g = 0 \<and> w = 1" by auto
      then show ?thesis using Delegate 2 4 5 by (auto simp: delegate_def)
    qed
  next
    case (Tau u)
    then show ?thesis using that 2 6 by (simp add: tau_mtxCh_def)
  qed (use that 2 in \<open>simp_all add: op_defs recover_def wake_ch_mtxCh_def\<close>)
  have 8: "\<not> (\<exists>ev. involves 1 ev \<and> event_mtxCh ev y \<noteq> None)"
  proof
    assume "\<exists>ev. involves 1 ev \<and> event_mtxCh ev y \<noteq> None"
    then obtain ev where "involves 1 ev" and n: "event_mtxCh ev y \<noteq> None" by (elim exE conjE)
    from 7 [OF this(1)] n show False by (rule notE [rotated])
  qed
  from 1 2 3 8 show ?thesis unfolding y_def by (intro conjI)
qed

text \<open>Second listing: after one Signal a token is pending and a second Signal body changes
  nothing.  First listing: the wake channel holds no element.\<close>

theorem Signal_delivery_witness:
  "buf (chans (the (run_mtx (to_select @ call1 OpSignal) (NewCond_mtx 16 2))) 0) = 1 \<and>
   Signal_body_mtx (the (run_mtx (to_select @ call1 OpSignal) (NewCond_mtx 16 2)))
     = Inr (the (run_mtx (to_select @ call1 OpSignal) (NewCond_mtx 16 2))) \<and>
   buf (chans (the (run_mtxCh signal_waits (NewCond_mtxCh 16 2))) 1) = 0"
proof -
  define s where "s = the (run_mtx (to_select @ call1 OpSignal) (NewCond_mtx 16 2))"
  define y where "y = the (run_mtxCh signal_waits (NewCond_mtxCh 16 2))"
  have "run_mtx (to_select @ call1 OpSignal) (NewCond_mtx 16 2) \<noteq> None"
    by (simp add: eval_mtx)
  then have 1: "reach_mtx s" unfolding s_def by (intro reach_mtx_run) simp_all
  have "run_mtxCh signal_waits (NewCond_mtxCh 16 2) \<noteq> None"
    by (simp add: eval_mtxCh signal_waits_def)
  then have 2: "reach_mtxCh y" unfolding y_def by (intro reach_mtxCh_run) simp_all
  have 3: "ch s = Some 0" by (simp add: s_def eval_mtx)
  have 4: "buf (chans s 0) = 1" by (simp add: s_def eval_mtx)
  note T = Signal_delivery [OF 1 2]
  have 5: "Signal_body_mtx s = Inr s"
    using T [THEN conjunct2, THEN conjunct1, rule_format, OF conjI [OF 3 4]] .
  have 6: "buf (chans y 1) = 0"
    using T [THEN conjunct2, THEN conjunct2, THEN conjunct2, THEN conjunct2, THEN conjunct2,
      THEN conjunct1, rule_format, of 1] by simp
  from 4 5 6 show ?thesis unfolding s_def y_def by (intro conjI)
qed

subsection \<open>C5: what Broadcast does\<close>

lemma Broadcast_call_mtx:
  assumes "inv_checker s" and "b < nthreads s" and "idle (pc s b)" and "mtx s = None"
    and "waiters s = 0"
  shows "run_mtx [Invoke b OpBroadcast, Tau b, Tau b, Tau b, Tau b] s
    = Some (s\<lparr>checker := addr s, pc := (pc s)(b := Returned Done)\<rparr>)"
proof -
  have "check (addr s) (checker s) = Inr (addr s)"
    using assms(1) by (auto simp: inv_checker_def check_def CompareAndSwapUintptr_def)
  then show ?thesis using assms(2-5)
    by (cases s) (simp add: op_defs mtx_defs)
qed

lemma Broadcast_call_mtxCh:
  assumes "inv_checker s" and "inv_curCh s" and "b < nthreads s" and "idle (pc s b)"
    and "buf (chans s 0) = 0" and "cap (chans s 0) = 1" and "waiters s = 0"
  shows "run_mtxCh [Invoke b OpBroadcast, Tau b, Tau b, Tau b, Tau b] s
    = Some (s\<lparr>checker := addr s, pc := (pc s)(b := Returned Done)\<rparr>)"
proof -
  have "check (addr s) (checker s) = Inr (addr s)"
    using assms(1) by (auto simp: inv_checker_def check_def CompareAndSwapUintptr_def)
  moreover have "mtxCh s = Some 0" "\<not> closed (chans s 0)"
    using assms(2) by (simp_all add: inv_curCh_def)
  moreover have "(chans s)(0 := chans s 0\<lparr>buf := 0\<rparr>) = chans s"
    using assms(5) by (auto simp: fun_eq_iff)
  ultimately show ?thesis using assms(3-7)
    by (cases s) (simp add: op_defs mtxCh_defs)
qed

text \<open>
  C5, as amended.  In every reachable state of either listing: when \<open>waiters > 0\<close> the body
  of Broadcast closes the current channel, which exists and is open, makes a fresh channel
  (of capacity one in the second listing, unbuffered in the first) and installs it as
  \<open>c.ch\<close>, changing nothing else; when \<open>waiters\<close> is 0 the body changes nothing.  A whole
  call of Broadcast that runs alone with \<open>waiters\<close> at 0 and the internal lock free ends in
  the state it started from but for two things: the caller has returned, and the checker
  holds the address of the Cond, which is a change when this call is the first use of the
  Cond.
\<close>

theorem Broadcast_effect:
  fixes s :: state_mtx and s' :: state_mtxCh
  assumes "reach_mtx s" and "reach_mtxCh s'"
  shows "(0 < waiters s \<longrightarrow> (\<exists>r. ch s = Some r \<and> r < nchans s \<and> \<not> closed (chans s r) \<and>
       Broadcast_body_mtx s = Inr (s\<lparr>ch := Some (nchans s),
         chans := (chans s)(r := (chans s r)\<lparr>closed := True\<rparr>, nchans s := make_chan 1),
         nchans := Suc (nchans s)\<rparr>))) \<and>
    (waiters s = 0 \<longrightarrow> Broadcast_body_mtx s = Inr s) \<and>
    (\<forall>b. b < nthreads s \<and> idle (pc s b) \<and> mtx s = None \<and> waiters s = 0 \<longrightarrow>
       run_mtx [Invoke b OpBroadcast, Tau b, Tau b, Tau b, Tau b] s
         = Some (s\<lparr>checker := addr s, pc := (pc s)(b := Returned Done)\<rparr>)) \<and>
    (0 < waiters s' \<longrightarrow> (\<exists>r. ch s' = Some r \<and> r < nchans s' \<and> \<not> closed (chans s' r) \<and>
       Broadcast_body_mtxCh s' = Inr (s'\<lparr>ch := Some (nchans s'),
         chans := (chans s')(r := (chans s' r)\<lparr>closed := True\<rparr>, nchans s' := make_chan 0),
         nchans := Suc (nchans s')\<rparr>))) \<and>
    (waiters s' = 0 \<longrightarrow> Broadcast_body_mtxCh s' = Inr s') \<and>
    (\<forall>b. b < nthreads s' \<and> idle (pc s' b) \<and> buf (chans s' 0) = 0 \<and> waiters s' = 0 \<longrightarrow>
       run_mtxCh [Invoke b OpBroadcast, Tau b, Tau b, Tau b, Tau b] s'
         = Some (s'\<lparr>checker := addr s', pc := (pc s')(b := Returned Done)\<rparr>))"
proof -
  have i: "inv_mtx s" using assms(1) by (rule reach_mtx_inv)
  have i': "inv_mtxCh s'" using assms(2) by (rule reach_mtxCh_inv)
  have a: "0 < waiters s \<longrightarrow> (\<exists>r. ch s = Some r \<and> r < nchans s \<and> \<not> closed (chans s r) \<and>
       Broadcast_body_mtx s = Inr (s\<lparr>ch := Some (nchans s),
         chans := (chans s)(r := (chans s r)\<lparr>closed := True\<rparr>, nchans s := make_chan 1),
         nchans := Suc (nchans s)\<rparr>))"
    using i by (cases "ch s")
      (auto simp: inv_mtx_def inv_nil_def inv_cur_def Broadcast_body_mtx_def chan_close_def chan_make_def)
  have b: "waiters s = 0 \<longrightarrow> Broadcast_body_mtx s = Inr s"
    by (simp add: Broadcast_body_mtx_def)
  have c: "\<forall>b. b < nthreads s \<and> idle (pc s b) \<and> mtx s = None \<and> waiters s = 0 \<longrightarrow>
       run_mtx [Invoke b OpBroadcast, Tau b, Tau b, Tau b, Tau b] s
         = Some (s\<lparr>checker := addr s, pc := (pc s)(b := Returned Done)\<rparr>)"
    using Broadcast_call_mtx [of s] i by (simp add: inv_mtx_def)
  have a': "0 < waiters s' \<longrightarrow> (\<exists>r. ch s' = Some r \<and> r < nchans s' \<and> \<not> closed (chans s' r) \<and>
       Broadcast_body_mtxCh s' = Inr (s'\<lparr>ch := Some (nchans s'),
         chans := (chans s')(r := (chans s' r)\<lparr>closed := True\<rparr>, nchans s' := make_chan 0),
         nchans := Suc (nchans s')\<rparr>))"
    using i' by (auto simp: inv_mtxCh_def inv_curCh_def Broadcast_body_mtxCh_def chan_close_def chan_make_def)
  have b': "waiters s' = 0 \<longrightarrow> Broadcast_body_mtxCh s' = Inr s'"
    by (simp add: Broadcast_body_mtxCh_def)
  have c': "\<forall>b. b < nthreads s' \<and> idle (pc s' b) \<and> buf (chans s' 0) = 0 \<and> waiters s' = 0 \<longrightarrow>
       run_mtxCh [Invoke b OpBroadcast, Tau b, Tau b, Tau b, Tau b] s'
         = Some (s'\<lparr>checker := addr s', pc := (pc s')(b := Returned Done)\<rparr>)"
    using Broadcast_call_mtxCh [of s'] i' by (simp add: inv_mtxCh_def inv_capCh_def)
  show ?thesis using a b c a' b' c' by (intro conjI) assumption+
qed

text \<open>Broadcast as the first call on a Cond that NewCond returned, with no waiter: the call
  returns and the checker, which was 0, holds the address 16.  Not all state is unchanged.\<close>

theorem Broadcast_effect_counterexample:
  "waiters (NewCond_mtx 16 2) = 0 \<and> checker (NewCond_mtx 16 2) = 0 \<and>
   pc (the (run_mtx (call1 OpBroadcast) (NewCond_mtx 16 2))) 1 = Returned Done \<and>
   checker (the (run_mtx (call1 OpBroadcast) (NewCond_mtx 16 2))) = 16"
  by (simp add: eval_mtx)

text \<open>Second listing, two waiters: the body closes channel 0 and installs channel 1, fresh.
  First listing, no waiter: the body changes nothing.\<close>

theorem Broadcast_effect_witness:
  "waiters (the (run_mtx two_waiters (NewCond_mtx 16 3))) = 2 \<and>
   ch (the (run_mtx two_waiters (NewCond_mtx 16 3))) = Some 0 \<and>
   Broadcast_body_mtx (the (run_mtx two_waiters (NewCond_mtx 16 3)))
     = Inr ((the (run_mtx two_waiters (NewCond_mtx 16 3)))\<lparr>ch := Some 1,
         chans := (chans (the (run_mtx two_waiters (NewCond_mtx 16 3))))
           (0 := (chans (the (run_mtx two_waiters (NewCond_mtx 16 3))) 0)\<lparr>closed := True\<rparr>,
            1 := make_chan 1),
         nchans := 2\<rparr>) \<and>
   Broadcast_body_mtxCh (NewCond_mtxCh 16 3) = Inr (NewCond_mtxCh 16 3)"
proof -
  define s where "s = the (run_mtx two_waiters (NewCond_mtx 16 3))"
  have "run_mtx two_waiters (NewCond_mtx 16 3) \<noteq> None"
    by (simp add: eval_mtx two_waiters_def)
  then have 1: "reach_mtx s" unfolding s_def by (intro reach_mtx_run) simp_all
  have 2: "reach_mtxCh (NewCond_mtxCh 16 3)" by (rule reach_mtxCh.reachCh_init) simp
  have 3: "waiters s = 2" by (simp add: s_def eval_mtx two_waiters_def)
  have 4: "ch s = Some 0" by (simp add: s_def eval_mtx two_waiters_def)
  have 5: "nchans s = 1" by (simp add: s_def eval_mtx two_waiters_def)
  have 6: "waiters (NewCond_mtxCh 16 3) = 0" by (simp add: NewCond_mtxCh_def)
  note T = Broadcast_effect [OF 1 2]
  from T [THEN conjunct1] 3 obtain r where "ch s = Some r" and
    b: "Broadcast_body_mtx s = Inr (s\<lparr>ch := Some (nchans s),
         chans := (chans s)(r := (chans s r)\<lparr>closed := True\<rparr>, nchans s := make_chan 1),
         nchans := Suc (nchans s)\<rparr>)"
    by auto
  with 4 have "r = 0" by simp
  with b 5 have 7: "Broadcast_body_mtx s = Inr (s\<lparr>ch := Some 1,
         chans := (chans s)(0 := (chans s 0)\<lparr>closed := True\<rparr>, 1 := make_chan 1),
         nchans := 2\<rparr>)"
    by simp
  have 8: "Broadcast_body_mtxCh (NewCond_mtxCh 16 3) = Inr (NewCond_mtxCh 16 3)"
    using T [THEN conjunct2, THEN conjunct2, THEN conjunct2, THEN conjunct2, THEN conjunct1] 6
    by (rule mp)
  from 3 4 7 8 show ?thesis unfolding s_def by (intro conjI)
qed

subsection \<open>C9: the zero value\<close>

text \<open>
  C9, as amended.  Second listing: what NewCond returns is the zero value with \<open>L\<close>
  assigned (line 167), so the reachable states are those of a zero-value Cond; in all of
  them no goroutine has panicked and the invariants above hold, and with them every
  property of the reachable states proved here.  First listing: \<open>mtxCh\<close> of the zero value
  is nil, and on a Cond whose \<open>mtxCh\<close> is nil the first statement of every method panics
  with "contextcond.Cond must be initialized with NewCond".
\<close>

theorem zero_value_Cond:
  fixes s :: state_mtx and s' :: state_mtxCh
  assumes "reach_mtx s" and "mtxCh s' = None" and "pc s' t = entry m"
  shows "NewCond_mtx a n = zero_mtx a n \<and> (\<forall>u. \<not> panicked (pc s u)) \<and> inv_mtx s \<and>
    mtxCh (zero_mtxCh a n) = None \<and>
    tau_mtxCh t s' = Some (goto t (Panicked NotInitialized) s')"
proof -
  have 1: "NewCond_mtx a n = zero_mtx a n" by (simp add: NewCond_mtx_def zero_mtx_def)
  have 2: "inv_mtx s" using assms(1) by (rule reach_mtx_inv)
  then have 3: "\<forall>u. \<not> panicked (pc s u)" by (simp add: inv_mtx_def inv_nopanic_def)
  have 4: "mtxCh (zero_mtxCh a n) = None" by (simp add: zero_mtxCh_def)
  have 5: "tau_mtxCh t s' = Some (goto t (Panicked NotInitialized) s')"
    using assms(2,3) by (cases m) (simp_all add: tau_mtxCh_def entry_def checks_def)
  show ?thesis using 1 3 2 4 5 by (intro conjI) assumption+
qed

text \<open>First listing: Signal, Broadcast, Wait and WaitContext on the zero value, with \<open>L\<close>
  assigned and held where the method asks for it, all panic at their first statement.\<close>

theorem zero_value_Cond_counterexample:
  "mtxCh (zero_mtxCh 16 1) = None \<and>
   pc (the (run_mtxCh [Invoke 0 OpSignal, Tau 0] (zero_mtxCh 16 1))) 0 = Panicked NotInitialized \<and>
   pc (the (run_mtxCh [Invoke 0 OpBroadcast, Tau 0] (zero_mtxCh 16 1))) 0 = Panicked NotInitialized \<and>
   pc (the (run_mtxCh [Acquire 0, Invoke 0 OpWait, Tau 0] (zero_mtxCh 16 1))) 0 = Panicked NotInitialized \<and>
   pc (the (run_mtxCh [Acquire 0, Invoke 0 (OpWaitContext (Ctx 0)), Tau 0] (zero_mtxCh 16 1))) 0
     = Panicked NotInitialized"
  by (simp add: eval_mtxCh)

text \<open>Second listing: on the zero value a waiter is woken by Signal and both calls return.
  First listing: Signal on the zero value panics.\<close>

theorem zero_value_Cond_witness:
  "pc (the (run_mtx woken (zero_mtx 16 2))) 0 = Returned (WaitRet None) \<and>
   pc (the (run_mtx woken (zero_mtx 16 2))) 1 = Returned Done \<and>
   tau_mtxCh 0 (goto 0 (entry OpSignal) (zero_mtxCh 16 1))
     = Some (goto 0 (Panicked NotInitialized) (goto 0 (entry OpSignal) (zero_mtxCh 16 1)))"
proof -
  define s where "s = the (run_mtx woken (NewCond_mtx 16 2))"
  have "run_mtx woken (NewCond_mtx 16 2) \<noteq> None"
    by (simp add: eval_mtx woken_def)
  then have 1: "reach_mtx s" unfolding s_def by (intro reach_mtx_run) simp_all
  have 2: "mtxCh (goto 0 (entry OpSignal) (zero_mtxCh 16 1)) = None"
    by (simp add: goto_def zero_mtxCh_def)
  have 3: "pc (goto 0 (entry OpSignal) (zero_mtxCh 16 1)) 0 = entry OpSignal"
    by (simp add: goto_def)
  note T = zero_value_Cond [OF 1 2 3, of 16 2]
  have 4: "NewCond_mtx 16 2 = zero_mtx 16 2" using T by (rule conjunct1)
  have 5: "tau_mtxCh 0 (goto 0 (entry OpSignal) (zero_mtxCh 16 1))
     = Some (goto 0 (Panicked NotInitialized) (goto 0 (entry OpSignal) (zero_mtxCh 16 1)))"
    using T by (elim conjE)
  have 6: "pc s 0 = Returned (WaitRet None)" "pc s 1 = Returned Done"
    by (simp_all add: s_def eval_mtx woken_def)
  from 6 5 show ?thesis unfolding s_def 4 by (intro conjI)
qed

end
